theory Spec2Isabelle
  imports Complex_Main "HOL-Library.Sublist"
begin

section \<open>Strings as Python sees them\<close>

text \<open>
  A Python string is modelled as a \<^typ>\<open>string\<close>, that is a list of characters.  The
  operations below are the string methods and operators that
  \<^verbatim>\<open>create_sql_db_xml.py\<close> calls: \<^verbatim>\<open>startswith\<close>, \<^verbatim>\<open>endswith\<close>,
  the substring test \<^verbatim>\<open>sub in s\<close>, \<^verbatim>\<open>split("/")\<close>, \<^verbatim>\<open>"/".join\<close>,
  \<^verbatim>\<open>strip\<close> and \<^verbatim>\<open>list.index\<close>.
\<close>

definition startswith :: "string \<Rightarrow> string \<Rightarrow> bool" where
  "startswith s pre = (take (length pre) s = pre)"

definition endswith :: "string \<Rightarrow> string \<Rightarrow> bool" where
  "endswith s suf = (length suf \<le> length s \<and> drop (length s - length suf) s = suf)"

text \<open>\<^verbatim>\<open>sub in s\<close>: \<open>sub\<close> occurs in \<open>s\<close> as a contiguous substring.\<close>

fun contains :: "string \<Rightarrow> string \<Rightarrow> bool" where
  "contains sub [] = (sub = [])"
| "contains sub (c # cs) = (startswith (c # cs) sub \<or> contains sub cs)"

text \<open>\<^verbatim>\<open>s.split(sep)\<close> for a separator of one character: never the empty list.\<close>

fun split :: "char \<Rightarrow> string \<Rightarrow> string list" where
  "split sep [] = [[]]"
| "split sep (c # cs) =
     (if c = sep then [] # split sep cs
      else (case split sep cs of
              [] \<Rightarrow> [[c]]
            | x # xs \<Rightarrow> (c # x) # xs))"

text \<open>\<^verbatim>\<open>sep.join(xs)\<close>.\<close>

fun join :: "string \<Rightarrow> string list \<Rightarrow> string" where
  "join sep [] = []"
| "join sep [x] = x"
| "join sep (x # y # ys) = x @ sep @ join sep (y # ys)"

text \<open>
  \<^verbatim>\<open>s.strip()\<close> removes leading and trailing whitespace.  The strings are those of
  Python 3 and a character of the model is a code point below 256.  Whitespace is what
  \<^verbatim>\<open>str.isspace\<close> accepts; among these code points that is tab, line feed, vertical
  tab, form feed, carriage return, the four separators U+001C to U+001F, space, next
  line U+0085 and no-break space U+00A0.
\<close>

definition is_space :: "char \<Rightarrow> bool" where
  "is_space c =
     (c \<in> set [CHR 0x09, CHR 0x0A, CHR 0x0B, CHR 0x0C, CHR 0x0D,
                CHR 0x1C, CHR 0x1D, CHR 0x1E, CHR 0x1F, CHR 0x20, CHR 0x85, CHR 0xA0])"

definition strip :: "string \<Rightarrow> string" where
  "strip s = rev (dropWhile is_space (rev (dropWhile is_space s)))"

datatype error = ValueError | IndexError | IOError | OSError

text \<open>\<^verbatim>\<open>xs.index(x)\<close>: the first position of \<open>x\<close>, a \<^verbatim>\<open>ValueError\<close> when there is none.\<close>

fun index :: "'a list \<Rightarrow> 'a \<Rightarrow> error + nat" where
  "index [] x = Inl ValueError"
| "index (y # ys) x =
     (if y = x then Inr 0
      else (case index ys x of Inl e \<Rightarrow> Inl e | Inr i \<Rightarrow> Inr (Suc i)))"

text \<open>\<^verbatim>\<open>xs[i]\<close> for a non-negative \<open>i\<close>: an \<^verbatim>\<open>IndexError\<close> out of range.\<close>

definition getitem :: "'a list \<Rightarrow> nat \<Rightarrow> error + 'a" where
  "getitem xs i = (if i < length xs then Inr (xs ! i) else Inl IndexError)"

section \<open>The functions of \<^verbatim>\<open>os.path\<close> the program calls\<close>

text \<open>
  \<^verbatim>\<open>os.path\<close> is Python's library, POSIX flavour; the definitions follow
  \<^verbatim>\<open>posixpath.py\<close> statement by statement.

  \<^verbatim>\<open>normpath\<close>: the empty path is \<^verbatim>\<open>"."\<close>; exactly two leading slashes are kept, any
  other number of them is one; empty and \<^verbatim>\<open>"."\<close> components are dropped; \<^verbatim>\<open>".."\<close>
  removes the component before it, stays at the front of a relative path and is
  dropped at the root.
\<close>

definition initial_slashes :: "string \<Rightarrow> nat" where
  "initial_slashes path =
     (if startswith path ''/'' then
        (if startswith path ''//'' \<and> \<not> startswith path ''///'' then 2 else 1)
      else 0)"

definition norm_step :: "nat \<Rightarrow> string list \<Rightarrow> string \<Rightarrow> string list" where
  "norm_step slashes new_comps cmp =
     (if cmp = '''' \<or> cmp = ''.'' then new_comps
      else if cmp \<noteq> ''..'' \<or> (slashes = 0 \<and> new_comps = [])
              \<or> (new_comps \<noteq> [] \<and> last new_comps = ''..'')
        then new_comps @ [cmp]
      else if new_comps \<noteq> [] then butlast new_comps
      else new_comps)"

definition normpath :: "string \<Rightarrow> string" where
  "normpath path =
     (if path = '''' then ''.''
      else
        let slashes = initial_slashes path;
            comps = split CHR ''/'' path;
            new_comps = foldl (norm_step slashes) [] comps;
            path' = replicate slashes CHR ''/'' @ join ''/'' new_comps
        in if path' = '''' then ''.'' else path')"

text \<open>The components that \<^verbatim>\<open>normpath\<close> keeps, in order.\<close>

definition norm_comps :: "string \<Rightarrow> string list" where
  "norm_comps p = foldl (norm_step (initial_slashes p)) [] (split CHR ''/'' p)"

text \<open>
  The shape of the components of a normalised path: none is empty, \<^verbatim>\<open>"."\<close> or holds a
  slash, and \<^verbatim>\<open>".."\<close> stands only at the front of a relative path.
\<close>

definition normal_comps :: "nat \<Rightarrow> string list \<Rightarrow> bool" where
  "normal_comps slashes comps =
     ((\<forall>x \<in> set comps. x \<noteq> '''' \<and> x \<noteq> ''.'' \<and> CHR ''/'' \<notin> set x)
      \<and> ''..'' \<notin> set (dropWhile (\<lambda>x. x = ''..'') comps)
      \<and> (0 < slashes \<longrightarrow> ''..'' \<notin> set comps))"

text \<open>
  \<^verbatim>\<open>dirname\<close>: everything up to and including the last slash, then without its
  trailing slashes unless it consists of slashes only.
\<close>

definition dirname :: "string \<Rightarrow> string" where
  "dirname p =
     (let head = rev (dropWhile (\<lambda>c. c \<noteq> CHR ''/'') (rev p))
      in if head \<noteq> '''' \<and> head \<noteq> replicate (length head) CHR ''/''
         then rev (dropWhile (\<lambda>c. c = CHR ''/'') (rev head))
         else head)"

text \<open>\<^verbatim>\<open>os.path.join(a, b)\<close> for two arguments.\<close>

definition path_join :: "string \<Rightarrow> string \<Rightarrow> string" where
  "path_join a b =
     (if startswith b ''/'' then b
      else if a = '''' \<or> endswith a ''/'' then a @ b
      else a @ ''/'' @ b)"

text \<open>
  \<^verbatim>\<open>os.path.splitext(p)[1]\<close>: the extension starts at the last dot of the last
  component, unless only dots come before it in that component.
\<close>

definition splitext_ext :: "string \<Rightarrow> string" where
  "splitext_ext p =
     (let base = rev (takeWhile (\<lambda>c. c \<noteq> CHR ''/'') (rev p));
          ext = rev (takeWhile (\<lambda>c. c \<noteq> CHR ''.'') (rev base));
          stem = take (length base - length ext - 1) base
      in if CHR ''.'' \<in> set base \<and> (\<exists>c \<in> set stem. c \<noteq> CHR ''.'')
         then CHR ''.'' # ext else '''')"

text \<open>
  \<^verbatim>\<open>os.path.relpath(path, start)\<close>.  Both paths are made absolute against the
  current directory, cut into their non-empty components, and the result climbs from
  \<open>start\<close> to the common prefix and descends to \<open>path\<close>.  The library raises a
  \<^verbatim>\<open>ValueError\<close> for an empty \<open>path\<close>; the program passes a directory joined with a
  file name, which is never empty.
\<close>

definition abspath :: "string \<Rightarrow> string \<Rightarrow> string" where
  "abspath cwd path =
     normpath (if startswith path ''/'' then path else path_join cwd path)"

fun commonprefix :: "'a list \<Rightarrow> 'a list \<Rightarrow> 'a list" where
  "commonprefix (x # xs) (y # ys) = (if x = y then x # commonprefix xs ys else [])"
| "commonprefix _ _ = []"

definition relpath :: "string \<Rightarrow> string \<Rightarrow> string \<Rightarrow> string" where
  "relpath cwd path start =
     (let start_list = filter (\<lambda>x. x \<noteq> '''') (split CHR ''/'' (abspath cwd start));
          path_list = filter (\<lambda>x. x \<noteq> '''') (split CHR ''/'' (abspath cwd path));
          i = length (commonprefix start_list path_list);
          rel_list = replicate (length start_list - i) ''..'' @ drop i path_list
      in case rel_list of
           [] \<Rightarrow> ''.''
         | r # rs \<Rightarrow> foldl path_join r rs)"

section \<open>The regular expressions of the program\<close>

text \<open>
  Each of the three patterns is modelled by the function that Python's \<^verbatim>\<open>re\<close> computes
  for it.  \<^verbatim>\<open>[0-9]\<close> is an ASCII digit, \<^verbatim>\<open>.\<close> is any character but a line feed,
  \<^verbatim>\<open>$\<close> matches at the end and before a final line feed.
\<close>

definition is_digit :: "char \<Rightarrow> bool" where
  "is_digit c = (c \<in> set ''0123456789'')"

text \<open>\<^verbatim>\<open>re.match(r"^[0-9]{4}$", s)\<close> succeeds.\<close>

definition match_4digits :: "string \<Rightarrow> bool" where
  "match_4digits s =
     (length (take 4 s) = 4 \<and> list_all is_digit (take 4 s)
      \<and> (drop 4 s = '''' \<or> drop 4 s = [CHR 0x0A]))"

text \<open>
  \<^verbatim>\<open>re.search(r"[0-9]+X_", s)\<close> succeeds: at some position a maximal run of at least
  one digit is followed by \<^verbatim>\<open>X_\<close>.
\<close>

definition match_branch2_at :: "string \<Rightarrow> bool" where
  "match_branch2_at s = (takeWhile is_digit s \<noteq> [] \<and> startswith (dropWhile is_digit s) ''X_'')"

fun search_branch2 :: "string \<Rightarrow> bool" where
  "search_branch2 [] = False"
| "search_branch2 (c # cs) = (match_branch2_at (c # cs) \<or> search_branch2 cs)"

text \<open>
  \<^verbatim>\<open>re.search(r'< ?In FileName="(.+)" Lumi="0\.0" ?\/>', s)\<close>: the group of the
  leftmost match, \<open>None\<close> when there is no match.  At a start position the optional
  space is decided by the next character; the group is greedy, so it is the longest
  non-empty run without a line feed after which the rest of the pattern matches.
\<close>

definition dquote :: char where
  "dquote = CHR 0x22"

definition fname_open :: string where
  "fname_open = ''In FileName='' @ [dquote]"

definition fname_close :: string where
  "fname_close = [dquote] @ '' Lumi='' @ [dquote] @ ''0.0'' @ [dquote]"

definition fname_tail :: "string \<Rightarrow> bool" where
  "fname_tail t =
     (startswith t (fname_close @ '' />'') \<or> startswith t (fname_close @ ''/>''))"

definition match_fname_at :: "string \<Rightarrow> string option" where
  "match_fname_at s =
     (if \<not> startswith s ''<'' then None
      else
        let r = drop 1 s;
            after_open =
              (if startswith r ('' '' @ fname_open) then Some (drop (Suc (length fname_open)) r)
               else if startswith r fname_open then Some (drop (length fname_open) r)
               else None)
        in case after_open of
             None \<Rightarrow> None
           | Some t \<Rightarrow>
               (let m = length (takeWhile (\<lambda>c. c \<noteq> CHR 0x0A) t);
                    ks = filter (\<lambda>k. fname_tail (drop k t)) [1 ..< Suc m]
                in if ks = [] then None else Some (take (last ks) t)))"

fun search_fname :: "string \<Rightarrow> string option" where
  "search_fname [] = None"
| "search_fname (c # cs) =
     (case match_fname_at (c # cs) of
        Some g \<Rightarrow> Some g
      | None \<Rightarrow> search_fname cs)"

section \<open>The environment\<close>

text \<open>
  What the program reads from the operating system, as a record: the current directory,
  the directory walk of \<^verbatim>\<open>os.walk\<close> (for each directory visited, its path and the names
  of its files, in traversal order), the lines of a file as iterating over it yields
  them, \<^verbatim>\<open>os.path.isdir\<close>, \<^verbatim>\<open>os.lstat\<close> (\<open>None\<close> when it raises \<^verbatim>\<open>OSError\<close>) and
  the local-time ISO format of a timestamp,
  \<^verbatim>\<open>datetime.datetime.fromtimestamp(t).isoformat(' ')\<close>.

  The model has no floating point.  A float is the rational number it denotes, and
  the one float operation of the program, the true division \<^verbatim>\<open>a / b\<close> of two ints, is
  a field of the record as well: from the two ints to the float that the interpreter
  computes.
\<close>

record stat_result =
  st_size :: nat
  st_ctime :: rat

record environment =
  getcwd :: string
  walk :: "string \<Rightarrow> (string \<times> string list) list"
  readlines :: "string \<Rightarrow> string list"
  isdir :: "string \<Rightarrow> bool"
  lstat :: "string \<Rightarrow> stat_result option"
  isoformat :: "rat \<Rightarrow> string"
  truediv :: "nat \<Rightarrow> nat \<Rightarrow> rat"

section \<open>\<^verbatim>\<open>SQLTable\<close>\<close>

text \<open>
  The table object is its name and the queries it has executed, oldest first.
  \<^verbatim>\<open>create_table\<close> drops the table and creates it with the given column declarations,
  joined by commas in the order given.
\<close>

record SQLTable =
  table_name :: string
  executed :: "string list"

definition execute_query :: "SQLTable \<Rightarrow> string \<Rightarrow> SQLTable" where
  "execute_query self query = self\<lparr>executed := executed self @ [query]\<rparr>"

definition create_table :: "SQLTable \<Rightarrow> string list \<Rightarrow> SQLTable" where
  "create_table self table_fields =
     (let self = execute_query self (''DROP TABLE IF EXISTS '' @ table_name self @ '';'');
          create_table_cmd =
            [CHR 0x0A] @ replicate 12 CHR '' '' @ ''CREATE TABLE '' @ [dquote] @ table_name self
            @ [dquote] @ '' ('' @ join '','' table_fields @ '');''
            @ [CHR 0x0A] @ replicate 12 CHR '' ''
      in execute_query self create_table_cmd)"

section \<open>\<^verbatim>\<open>XMLFileDataGenerator\<close>\<close>

definition get_xml_filenames :: "environment \<Rightarrow> string \<Rightarrow> string list" where
  "get_xml_filenames env top_dir =
     concat (map (\<lambda>(root, files).
               map (\<lambda>filename. relpath (getcwd env) (path_join root filename) top_dir)
                 (filter (\<lambda>filename. splitext_ext filename = ''.xml'') files))
             (walk env top_dir))"

definition branch_pattern :: string where
  "branch_pattern = ''RunII_''"

definition is_year :: "string \<Rightarrow> bool" where
  "is_year s =
     ((contains ''16'' s \<or> contains ''17'' s \<or> contains ''18'' s)
      \<and> \<not> contains ''.xml'' s)"

text \<open>
  The first loop of \<^verbatim>\<open>get_year_from_path\<close>: \<open>None\<close> when the loop ends without
  returning, otherwise what the function returns (or raises).
\<close>

fun year_after_branch :: "string list \<Rightarrow> string list \<Rightarrow> (error + string option) option" where
  "year_after_branch parts [] = None"
| "year_after_branch parts (p # ps) =
     (if contains branch_pattern p then
        Some (case index parts p of
                Inl e \<Rightarrow> Inl e
              | Inr ind \<Rightarrow>
                  if int ind = int (length parts) - 1 then Inr None
                  else (case getitem parts (ind + 1) of
                          Inl e \<Rightarrow> Inl e
                        | Inr year \<Rightarrow> Inr (if is_year year then Some year else None)))
      else year_after_branch parts ps)"

text \<open>The second loop: the first part that is a year.\<close>

fun first_year :: "string list \<Rightarrow> string option" where
  "first_year [] = None"
| "first_year (p # ps) = (if is_year p then Some p else first_year ps)"

definition get_year_from_path :: "string \<Rightarrow> error + string option" where
  "get_year_from_path path =
     (let parts = split CHR ''/'' path
      in case year_after_branch parts parts of
           Some r \<Rightarrow> r
         | None \<Rightarrow> Inr (first_year parts))"

fun first_branch :: "string list \<Rightarrow> string option" where
  "first_branch [] = None"
| "first_branch (p # ps) =
     (if (contains branch_pattern p \<or> search_branch2 p) \<and> \<not> contains ''.xml'' p
      then Some p else first_branch ps)"

definition get_branch_from_path :: "string \<Rightarrow> string option" where
  "get_branch_from_path path = first_branch (split CHR ''/'' path)"

record xml_data =
  filepath :: string
  year :: string
  branch :: string
  git_src :: string

definition get_xml_data :: "string \<Rightarrow> string \<Rightarrow> error + xml_data" where
  "get_xml_data git_source xml_path =
     (let path = normpath xml_path
      in case get_year_from_path path of
           Inl e \<Rightarrow> Inl e
         | Inr year_opt \<Rightarrow>
             (let year = (case year_opt of None \<Rightarrow> '''' | Some y \<Rightarrow> y);
                  branch = (case get_branch_from_path path of None \<Rightarrow> '''' | Some b \<Rightarrow> b)
              in Inr \<lparr>filepath = xml_path, year = year, branch = branch,
                       git_src = git_source\<rparr>))"

text \<open>
  A generator that calls \<open>f\<close> on each element in turn: the rows it yields, and the
  exception that ended it, if any.
\<close>

fun generate :: "('a \<Rightarrow> error + 'b) \<Rightarrow> 'a list \<Rightarrow> 'b list \<times> error option" where
  "generate f [] = ([], None)"
| "generate f (x # xs) =
     (case f x of
        Inl e \<Rightarrow> ([], Some e)
      | Inr y \<Rightarrow> (case generate f xs of (ys, e) \<Rightarrow> (y # ys, e)))"

definition xml_file_data :: "environment \<Rightarrow> string \<Rightarrow> string \<Rightarrow> xml_data list \<times> error option" where
  "xml_file_data env top_dir git_source =
     generate (get_xml_data git_source) (get_xml_filenames env top_dir)"

section \<open>\<^verbatim>\<open>XMLNtupleDirDataGenerator\<close>\<close>

text \<open>
  One turn of the loop of \<^verbatim>\<open>get_ntuple_filenames_from_xml\<close>: from the comment flag and
  the raw line to the new flag and the file name yielded, if any.
\<close>

definition process_line :: "bool \<Rightarrow> string \<Rightarrow> bool \<times> string option" where
  "process_line is_comment raw =
     (let line = strip raw;
          is_comment = (if startswith line ''<!--'' then True else is_comment)
      in if endswith line ''-->'' then (False, None)
         else if is_comment then (is_comment, None)
         else (is_comment, search_fname (strip line)))"

fun ntuple_filenames :: "bool \<Rightarrow> string list \<Rightarrow> string list" where
  "ntuple_filenames is_comment [] = []"
| "ntuple_filenames is_comment (raw # rest) =
     (case process_line is_comment raw of
        (is_comment', None) \<Rightarrow> ntuple_filenames is_comment' rest
      | (is_comment', Some fname) \<Rightarrow> fname # ntuple_filenames is_comment' rest)"

text \<open>The value of the comment flag after the loop has read the given lines.\<close>

fun comment_after :: "bool \<Rightarrow> string list \<Rightarrow> bool" where
  "comment_after is_comment [] = is_comment"
| "comment_after is_comment (raw # rest) =
     comment_after (fst (process_line is_comment raw)) rest"

definition get_ntuple_filenames_from_xml :: "environment \<Rightarrow> string \<Rightarrow> string list" where
  "get_ntuple_filenames_from_xml env xml_filename =
     ntuple_filenames False (readlines env xml_filename)"

text \<open>
  The body of the loop of \<^verbatim>\<open>get_ntuple_dirs_from_xml\<close>, in two steps: the directory
  name is normalised, and the last \<^verbatim>\<open>0000\<close> directory that CRAB makes is removed.
  \<^verbatim>\<open>parts[-1]\<close> is \<^term>\<open>last parts\<close>: a split is never empty.
\<close>

definition remove_crab_dir :: "string \<Rightarrow> string" where
  "remove_crab_dir dir_name =
     (let parts = split CHR ''/'' dir_name
      in if match_4digits (last parts) then join ''/'' (butlast parts) else dir_name)"

definition normalize_dir :: "string \<Rightarrow> string" where
  "normalize_dir d = remove_crab_dir (normpath d)"

definition ntuple_dir_name :: "string \<Rightarrow> string" where
  "ntuple_dir_name ntuple_fname = normalize_dir (dirname ntuple_fname)"

text \<open>
  \<^verbatim>\<open>list(dirs)\<close> lists the set \<open>dirs\<close> in an order that Python does not specify.  The
  order is a parameter \<open>listing\<close>, from the names in the order they were added to the
  names as listed; all that is known of it is \<open>set_listing\<close>.
\<close>

definition set_listing :: "(string list \<Rightarrow> string list) \<Rightarrow> bool" where
  "set_listing listing = (\<forall>xs. set (listing xs) = set xs \<and> distinct (listing xs))"

definition get_ntuple_dirs_from_xml ::
  "environment \<Rightarrow> (string list \<Rightarrow> string list) \<Rightarrow> string \<Rightarrow> string list" where
  "get_ntuple_dirs_from_xml env listing xml_filename =
     listing (map ntuple_dir_name (get_ntuple_filenames_from_xml env xml_filename))"

text \<open>
  \<^verbatim>\<open>get_size\<close>: the sizes of the files under the path, a file whose \<^verbatim>\<open>lstat\<close> fails
  left out, divided by 1024 in floating point.
\<close>

definition get_size :: "environment \<Rightarrow> string \<Rightarrow> rat" where
  "get_size env path =
     (let total_size =
            sum_list (map (\<lambda>(dirpath, filenames).
                        sum_list (map (\<lambda>f. case lstat env (path_join dirpath f) of
                                              None \<Rightarrow> 0
                                            | Some st \<Rightarrow> st_size st) filenames))
                      (walk env path))
      in truediv env total_size 1024)"

text \<open>
  \<^verbatim>\<open>get_dir_user\<close>.  The first test reads the path as given; the path is then
  normalised and both later tests read the normalised path.  When neither holds the
  function ends without a \<^verbatim>\<open>return\<close>, which is \<^verbatim>\<open>None\<close>.
\<close>

definition user_after :: "string list \<Rightarrow> string \<Rightarrow> error + string option" where
  "user_after parts marker =
     (case index parts marker of
        Inl e \<Rightarrow> Inl e
      | Inr ind \<Rightarrow>
          if int ind = int (length parts) - 1 then Inr None
          else (case getitem parts (ind + 1) of
                  Inl e \<Rightarrow> Inl e
                | Inr u \<Rightarrow> Inr (Some u)))"

definition get_dir_user :: "string \<Rightarrow> error + string option" where
  "get_dir_user ntuple_dir =
     (if \<not> contains ''/user/'' ntuple_dir \<and> \<not> contains ''/group/'' ntuple_dir then Inr None
      else
        let ntuple_dir = normpath ntuple_dir;
            parts = split CHR ''/'' ntuple_dir
        in if contains ''/user/'' ntuple_dir then user_after parts ''user''
           else if contains ''/group/'' ntuple_dir then user_after parts ''group''
           else Inr None)"

definition get_creation_time :: "environment \<Rightarrow> string \<Rightarrow> error + string" where
  "get_creation_time env thing =
     (case lstat env thing of
        None \<Rightarrow> Inl OSError
      | Some st \<Rightarrow> Inr (isoformat env (st_ctime st)))"

record dir_data =
  ntuple_dir :: string
  size_kb :: rat
  user :: "string option"
  creation_time :: string

definition get_ntuple_dir_data :: "environment \<Rightarrow> string \<Rightarrow> error + dir_data" where
  "get_ntuple_dir_data env dir =
     (case get_dir_user dir of
        Inl e \<Rightarrow> Inl e
      | Inr u \<Rightarrow>
          if isdir env dir then
            (case get_creation_time env dir of
               Inl e \<Rightarrow> Inl e
             | Inr t \<Rightarrow> Inr \<lparr>ntuple_dir = dir, size_kb = get_size env dir, user = u,
                               creation_time = t\<rparr>)
          else Inr \<lparr>ntuple_dir = dir, size_kb = - 1, user = u, creation_time = ''-1''\<rparr>)"

text \<open>
  The rows that the generator yields: the data of a directory with the descriptor's
  path added as \<^verbatim>\<open>xml_filepath\<close>.  The pause after every thousandth directory has no
  effect on the rows and is not modelled.
\<close>

record dir_row = dir_data +
  xml_filepath :: string

definition add_xml_filepath :: "dir_data \<Rightarrow> string \<Rightarrow> dir_row" where
  "add_xml_filepath d xml_path =
     \<lparr>ntuple_dir = ntuple_dir d, size_kb = size_kb d, user = user d,
      creation_time = creation_time d, xml_filepath = xml_path\<rparr>"

definition ntuple_dir_row :: "environment \<Rightarrow> string \<times> string \<Rightarrow> error + dir_row" where
  "ntuple_dir_row env = (\<lambda>(xml_path, dir).
     case get_ntuple_dir_data env dir of
       Inl e \<Rightarrow> Inl e
     | Inr d \<Rightarrow> Inr (add_xml_filepath d xml_path))"

definition xml_ntuple_dir_data ::
  "environment \<Rightarrow> (string list \<Rightarrow> string list) \<Rightarrow> string \<Rightarrow> dir_row list \<times> error option" where
  "xml_ntuple_dir_data env listing top_dir =
     generate (ntuple_dir_row env)
       (concat (map (\<lambda>xml_path.
                  map (\<lambda>dir. (xml_path, dir))
                    (get_ntuple_dirs_from_xml env listing (path_join top_dir xml_path)))
                (get_xml_filenames env top_dir)))"

section \<open>Creating the tables\<close>

text \<open>
  \<^verbatim>\<open>create_xml_table\<close> and \<^verbatim>\<open>create_xml_ntuple_dir_table\<close>: the queries that declare
  the table, the rows handed to \<^verbatim>\<open>fill_table\<close>, and the exception raised, if any.
  The name of the repository and of its branch come from \<^verbatim>\<open>git\<close> and are parameters.
\<close>

definition xml_table_fields :: "string list" where
  "xml_table_fields =
     [''filepath TEXT NOT NULL'',
      ''branch TEXT NOT NULL'',
      ''git_src TEXT'',
      ''year TEXT NOT NULL'']"

definition xml_ntuple_dir_table_fields :: "string list" where
  "xml_ntuple_dir_table_fields =
     [''xml_filepath TEXT NOT NULL'',
      ''ntuple_dir TEXT NOT NULL'',
      ''size FLOAT'',
      ''user TEXT'',
      ''creation_time TEXT'']"

definition create_xml_table ::
  "environment \<Rightarrow> string \<Rightarrow> string \<Rightarrow> string \<Rightarrow> bool
     \<Rightarrow> string list \<times> xml_data list \<times> error option" where
  "create_xml_table env repo_name git_branch top_dir appnd =
     (if \<not> isdir env top_dir then ([], [], Some IOError)
      else
        let xml_table_maker = \<lparr>table_name = ''xml'', executed = []\<rparr>;
            xml_table_maker =
              (if \<not> appnd then create_table xml_table_maker xml_table_fields
               else xml_table_maker);
            (rows, raised) = xml_file_data env top_dir (repo_name @ ''/'' @ git_branch)
        in (executed xml_table_maker, rows, raised))"

definition create_xml_ntuple_dir_table ::
  "environment \<Rightarrow> (string list \<Rightarrow> string list) \<Rightarrow> string \<Rightarrow> bool
     \<Rightarrow> string list \<times> dir_row list \<times> error option" where
  "create_xml_ntuple_dir_table env listing top_dir appnd =
     (if \<not> isdir env top_dir then ([], [], Some IOError)
      else
        let xml_ntuple_dir_table_maker = \<lparr>table_name = ''xml_ntuple_dir'', executed = []\<rparr>;
            xml_ntuple_dir_table_maker =
              (if \<not> appnd
               then create_table xml_ntuple_dir_table_maker xml_ntuple_dir_table_fields
               else xml_ntuple_dir_table_maker);
            (rows, raised) = xml_ntuple_dir_data env listing top_dir
        in (executed xml_ntuple_dir_table_maker, rows, raised))"

text \<open>
  \<^verbatim>\<open>create_tables\<close>: the second table is made only when the first was made without an
  exception.
\<close>

definition create_tables ::
  "environment \<Rightarrow> (string list \<Rightarrow> string list) \<Rightarrow> string \<Rightarrow> string \<Rightarrow> string \<Rightarrow> bool
     \<Rightarrow> (string list \<times> xml_data list \<times> error option)
        \<times> (string list \<times> dir_row list \<times> error option) option" where
  "create_tables env listing repo_name git_branch top_dir appnd =
     (let a = create_xml_table env repo_name git_branch top_dir appnd
      in (a, if snd (snd a) = None
             then Some (create_xml_ntuple_dir_table env listing top_dir appnd)
             else None))"

section \<open>Example inputs\<close>

text \<open>
  A scan root \<^verbatim>\<open>datasets\<close> that holds the descriptor \<^verbatim>\<open>a.xml\<close> and a file that is no
  descriptor; the descriptor references two files in two CRAB directories of one job,
  and no referenced directory exists.
\<close>

definition in_line :: "string \<Rightarrow> string" where
  "in_line fname =
     ''    <In FileName='' @ [dquote] @ fname @ fname_close @ ''/>'' @ [CHR 0x0A]"

text \<open>
  Lines of a descriptor: a file line followed by a comment on the same line, the line
  that opens a comment and the line that closes it.
\<close>

definition checked_line :: "string \<Rightarrow> string" where
  "checked_line fname =
     ''    <In FileName='' @ [dquote] @ fname @ fname_close @ ''/> <!-- checked -->''
     @ [CHR 0x0A]"

definition comment_open_line :: string where
  "comment_open_line = ''  <!-- old files'' @ [CHR 0x0A]"

definition comment_close_line :: string where
  "comment_close_line = ''  end of old files -->'' @ [CHR 0x0A]"

text \<open>
  Closing lines that end with whitespace other than ASCII: a file line closed by
  \<^verbatim>\<open>-->\<close> and the separator U+001F, and a closing line that ends with a no-break
  space.
\<close>

definition separator_line :: "string \<Rightarrow> string" where
  "separator_line fname =
     ''<In FileName='' @ [dquote] @ fname @ fname_close @ ''/> -->'' @ [CHR 0x1F, CHR 0x0A]"

definition nbsp_close_line :: string where
  "nbsp_close_line = ''-->'' @ [CHR 0xA0, CHR 0x0A]"

definition nbsp_open_line :: string where
  "nbsp_open_line = [CHR 0xA0] @ ''<!-- old files'' @ [CHR 0x0A]"

definition example_env :: environment where
  "example_env =
     \<lparr>getcwd = ''/work'',
      walk = (\<lambda>p. if p = ''datasets'' then [(''datasets'', [''a.xml'', ''README''])] else []),
      readlines = (\<lambda>p. if p = ''datasets/a.xml''
         then [in_line ''RunII_102X_v1/2017v2/store/user/alice/job/0000/f1.root'',
               in_line ''RunII_102X_v1/2017v2/store/user/alice/job/0001/f2.root'']
         else []),
      isdir = (\<lambda>p. p = ''datasets''),
      lstat = (\<lambda>p. if p = ''datasets'' then Some \<lparr>st_size = 4096, st_ctime = 0\<rparr> else None),
      isoformat = (\<lambda>t. ''1970-01-01 00:00:00''),
      truediv = (\<lambda>a b. of_nat a / of_nat b)\<rparr>"


section \<open>Properties\<close>

subsection \<open>The declarations of the two tables\<close>

lemma create_table_executed:
  "executed (create_table \<lparr>table_name = n, executed = []\<rparr> cols) =
     [''DROP TABLE IF EXISTS '' @ n @ '';'',
      [CHR 0x0A] @ replicate 12 CHR '' '' @ ''CREATE TABLE '' @ [dquote] @ n @ [dquote]
        @ '' ('' @ join '','' cols @ '');'' @ [CHR 0x0A] @ replicate 12 CHR '' '']"
  by (simp add: create_table_def execute_query_def Let_def)

text \<open>
  C3, as claimed: the descriptor table would be declared with \<^verbatim>\<open>year\<close> before
  \<^verbatim>\<open>git_src\<close>.  It is not: neither the list of declarations nor the \<^verbatim>\<open>CREATE TABLE\<close>
  query has that order.
\<close>

theorem xml_table_fields_order_counterexample:
  "xml_table_fields \<noteq>
     [''filepath TEXT NOT NULL'', ''branch TEXT NOT NULL'', ''year TEXT NOT NULL'',
      ''git_src TEXT'']
   \<and> fst (create_xml_table example_env ''UHH2-datasets'' ''master'' ''datasets'' False) \<noteq>
     [''DROP TABLE IF EXISTS xml;'',
      [CHR 0x0A] @ replicate 12 CHR '' '' @ ''CREATE TABLE '' @ [dquote] @ ''xml'' @ [dquote]
        @ '' (filepath TEXT NOT NULL,branch TEXT NOT NULL,year TEXT NOT NULL,git_src TEXT);''
        @ [CHR 0x0A] @ replicate 12 CHR '' '']"
  by (simp add: xml_table_fields_def create_xml_table_def example_env_def
      create_table_executed split: prod.splits)

text \<open>
  C3, amended: when the tables are created fresh (append false, the scan root being a
  directory), the descriptor table is declared with the columns \<^verbatim>\<open>filepath TEXT NOT NULL\<close>,
  \<^verbatim>\<open>branch TEXT NOT NULL\<close>, \<^verbatim>\<open>git_src TEXT\<close>, \<^verbatim>\<open>year TEXT NOT NULL\<close> in this order, and the
  directory table with \<^verbatim>\<open>xml_filepath TEXT NOT NULL\<close>, \<^verbatim>\<open>ntuple_dir TEXT NOT NULL\<close>,
  \<^verbatim>\<open>size FLOAT\<close>, \<^verbatim>\<open>user TEXT\<close>, \<^verbatim>\<open>creation_time TEXT\<close> in this order; each table is
  dropped first.
\<close>

theorem fresh_table_declarations:
  assumes "isdir env top_dir"
  shows "fst (create_xml_table env repo_name git_branch top_dir False) =
     [''DROP TABLE IF EXISTS xml;'',
      [CHR 0x0A] @ replicate 12 CHR '' '' @ ''CREATE TABLE '' @ [dquote] @ ''xml'' @ [dquote]
        @ '' (filepath TEXT NOT NULL,branch TEXT NOT NULL,git_src TEXT,year TEXT NOT NULL);''
        @ [CHR 0x0A] @ replicate 12 CHR '' '']
   \<and> fst (create_xml_ntuple_dir_table env listing top_dir False) =
     [''DROP TABLE IF EXISTS xml_ntuple_dir;'',
      [CHR 0x0A] @ replicate 12 CHR '' '' @ ''CREATE TABLE '' @ [dquote] @ ''xml_ntuple_dir''
        @ [dquote]
        @ '' (xml_filepath TEXT NOT NULL,ntuple_dir TEXT NOT NULL,size FLOAT,user TEXT,creation_time TEXT);''
        @ [CHR 0x0A] @ replicate 12 CHR '' '']"
  using assms
  by (simp add: create_xml_table_def create_xml_ntuple_dir_table_def create_table_executed
      xml_table_fields_def xml_ntuple_dir_table_fields_def split: prod.splits)

theorem fresh_table_declarations_witness:
  "isdir example_env ''datasets''
   \<and> fst (create_xml_table example_env ''UHH2-datasets'' ''master'' ''datasets'' False) =
     [''DROP TABLE IF EXISTS xml;'',
      [CHR 0x0A] @ replicate 12 CHR '' '' @ ''CREATE TABLE '' @ [dquote] @ ''xml'' @ [dquote]
        @ '' (filepath TEXT NOT NULL,branch TEXT NOT NULL,git_src TEXT,year TEXT NOT NULL);''
        @ [CHR 0x0A] @ replicate 12 CHR '' '']
   \<and> fst (create_xml_ntuple_dir_table example_env remdups ''datasets'' False) =
     [''DROP TABLE IF EXISTS xml_ntuple_dir;'',
      [CHR 0x0A] @ replicate 12 CHR '' '' @ ''CREATE TABLE '' @ [dquote] @ ''xml_ntuple_dir''
        @ [dquote]
        @ '' (xml_filepath TEXT NOT NULL,ntuple_dir TEXT NOT NULL,size FLOAT,user TEXT,creation_time TEXT);''
        @ [CHR 0x0A] @ replicate 12 CHR '' '']"
proof -
  have d: "isdir example_env ''datasets''"
    by (simp add: example_env_def)
  from fresh_table_declarations [OF d, of "''UHH2-datasets''" "''master''" remdups] d
  show ?thesis by simp
qed

subsection \<open>Comments in a descriptor\<close>

lemma process_line_close:
  "endswith (strip raw) ''-->'' \<Longrightarrow> process_line c raw = (False, None)"
  by (simp add: process_line_def Let_def)

lemma process_line_open:
  "startswith (strip raw) ''<!--'' \<Longrightarrow> \<not> endswith (strip raw) ''-->''
     \<Longrightarrow> process_line c raw = (True, None)"
  by (simp add: process_line_def Let_def)

lemma process_line_inside:
  "\<not> endswith (strip raw) ''-->'' \<Longrightarrow> process_line True raw = (True, None)"
  by (simp add: process_line_def Let_def)

lemma ntuple_filenames_append:
  "ntuple_filenames c (xs @ ys) =
     ntuple_filenames c xs @ ntuple_filenames (comment_after c xs) ys"
  by (induction xs arbitrary: c) (auto split: prod.splits option.splits)

lemma ntuple_filenames_inside:
  "\<forall>l \<in> set mid. \<not> endswith (strip l) ''-->'' \<Longrightarrow>
     ntuple_filenames True (mid @ rest) = ntuple_filenames True rest"
  by (induction mid) (auto simp: process_line_inside)

lemma ntuple_filenames_skip_close:
  assumes "endswith (strip raw) ''-->''"
  shows "ntuple_filenames c (raw # post) = ntuple_filenames False post"
  using assms by (simp add: process_line_close)

text \<open>
  C6: the comment flag is set by a trimmed line that starts with \<^verbatim>\<open><!--\<close> and cleared
  by a trimmed line that ends with \<^verbatim>\<open>-->\<close>; the closing line yields nothing, and a line
  read while the flag is set yields nothing.  Hence, of the lines from one that opens a
  comment (and does not close it) to the next one that closes it, none is yielded,
  whatever they match: the file names are those of the lines before, followed by
  those of the lines after, read with the flag cleared.
\<close>

theorem comment_lines_skipped:
  "fst (process_line c raw) =
     (if endswith (strip raw) ''-->'' then False
      else if startswith (strip raw) ''<!--'' then True else c)
   \<and> (endswith (strip raw) ''-->'' \<longrightarrow> snd (process_line c raw) = None)
   \<and> (c \<longrightarrow> snd (process_line c raw) = None)
   \<and> (startswith (strip opn) ''<!--'' \<and> \<not> endswith (strip opn) ''-->''
        \<and> (\<forall>l \<in> set mid. \<not> endswith (strip l) ''-->'')
        \<and> endswith (strip cls) ''-->''
      \<longrightarrow> ntuple_filenames c (pre @ [opn] @ mid @ [cls] @ post) =
            ntuple_filenames c pre @ ntuple_filenames False post)"
proof (intro conjI impI)
  show "fst (process_line c raw) =
     (if endswith (strip raw) ''-->'' then False
      else if startswith (strip raw) ''<!--'' then True else c)"
    by (simp add: process_line_def Let_def)
next
  assume "endswith (strip raw) ''-->''"
  then show "snd (process_line c raw) = None"
    by (simp add: process_line_close)
next
  assume c
  then show "snd (process_line c raw) = None"
    by (simp add: process_line_def Let_def)
next
  assume h: "startswith (strip opn) ''<!--'' \<and> \<not> endswith (strip opn) ''-->''
        \<and> (\<forall>l \<in> set mid. \<not> endswith (strip l) ''-->'')
        \<and> endswith (strip cls) ''-->''"
  have "ntuple_filenames (comment_after c pre) (opn # mid @ cls # post) =
          ntuple_filenames True (mid @ cls # post)"
    using h by (simp add: process_line_open)
  also have "\<dots> = ntuple_filenames True (cls # post)"
    using h by (simp add: ntuple_filenames_inside)
  also have "\<dots> = ntuple_filenames False post"
    using h ntuple_filenames_skip_close by blast
  finally show "ntuple_filenames c (pre @ [opn] @ mid @ [cls] @ post) =
            ntuple_filenames c pre @ ntuple_filenames False post"
    by (simp add: ntuple_filenames_append)
qed

theorem comment_lines_skipped_witness:
  "search_fname (strip (in_line ''x.root'')) = Some ''x.root''
   \<and> startswith (strip comment_open_line) ''<!--''
   \<and> \<not> endswith (strip comment_open_line) ''-->''
   \<and> \<not> endswith (strip (in_line ''x.root'')) ''-->''
   \<and> endswith (strip comment_close_line) ''-->''
   \<and> fst (process_line False comment_open_line) = True
   \<and> snd (process_line True (in_line ''x.root'')) = None
   \<and> snd (process_line True comment_close_line) = None
   \<and> ntuple_filenames False
         ([in_line ''p.root''] @ [comment_open_line] @ [in_line ''x.root'']
          @ [comment_close_line] @ [in_line ''q.root''])
       = [''p.root'', ''q.root'']
   \<and> startswith (strip nbsp_open_line) ''<!--''
   \<and> \<not> endswith (strip nbsp_open_line) ''-->''
   \<and> endswith (strip nbsp_close_line) ''-->''
   \<and> ntuple_filenames False
         ([in_line ''p.root''] @ [nbsp_open_line] @ [in_line ''x.root'']
          @ [nbsp_close_line] @ [in_line ''q.root''])
       = [''p.root'', ''q.root'']"
proof -
  have m: "search_fname (strip (in_line ''x.root'')) = Some ''x.root''"
    by code_simp
  have o1: "startswith (strip comment_open_line) ''<!--''"
    by code_simp
  have o2: "\<not> endswith (strip comment_open_line) ''-->''"
    by code_simp
  have i: "\<not> endswith (strip (in_line ''x.root'')) ''-->''"
    by code_simp
  have e: "endswith (strip comment_close_line) ''-->''"
    by code_simp
  have p: "ntuple_filenames False [in_line ''p.root''] = [''p.root'']"
    by code_simp
  have q: "ntuple_filenames False [in_line ''q.root''] = [''q.root'']"
    by code_simp
  note t = comment_lines_skipped [of _ _ "comment_open_line" "[in_line ''x.root'']"
      "comment_close_line" "[in_line ''p.root'']" "[in_line ''q.root'']"]
  have f: "fst (process_line False comment_open_line) = True"
    using t [of False "comment_open_line"] o1 o2 by simp
  have s1: "snd (process_line True (in_line ''x.root'')) = None"
    using t [of True "in_line ''x.root''"] by simp
  have s2: "snd (process_line True comment_close_line) = None"
    using t [of True "comment_close_line"] by simp
  have b: "ntuple_filenames False
         ([in_line ''p.root''] @ [comment_open_line] @ [in_line ''x.root'']
          @ [comment_close_line] @ [in_line ''q.root''])
       = [''p.root'', ''q.root'']"
    using t [of False "''''"] o1 o2 i e p q by simp
  have o3: "startswith (strip nbsp_open_line) ''<!--''"
    by code_simp
  have o4: "\<not> endswith (strip nbsp_open_line) ''-->''"
    by code_simp
  have e2: "endswith (strip nbsp_close_line) ''-->''"
    by code_simp
  have b2: "ntuple_filenames False
         ([in_line ''p.root''] @ [nbsp_open_line] @ [in_line ''x.root'']
          @ [nbsp_close_line] @ [in_line ''q.root''])
       = [''p.root'', ''q.root'']"
    using comment_lines_skipped [of False "''''" nbsp_open_line "[in_line ''x.root'']"
        nbsp_close_line "[in_line ''p.root'']" "[in_line ''q.root'']"] o3 o4 i e2 p q
    by simp
  from m o1 o2 i e f s1 s2 b o3 o4 e2 b2 show ?thesis by blast
qed

text \<open>
  C9: a line that ends, once trimmed, with \<^verbatim>\<open>-->\<close> is skipped and yields nothing,
  whether or not a comment is open and whatever it matches; the lines after it are
  read with the flag cleared.
\<close>

theorem closing_line_skipped:
  assumes "endswith (strip raw) ''-->''"
  shows "process_line c raw = (False, None)
     \<and> ntuple_filenames c (pre @ [raw] @ post) =
         ntuple_filenames c pre @ ntuple_filenames False post"
  using assms
  by (simp add: process_line_close ntuple_filenames_append)

theorem closing_line_skipped_witness:
  "search_fname (strip (checked_line ''a.root'')) = Some ''a.root''
   \<and> endswith (strip (checked_line ''a.root'')) ''-->''
   \<and> process_line False (checked_line ''a.root'') = (False, None)
   \<and> ntuple_filenames False
        ([in_line ''p.root''] @ [checked_line ''a.root'']
         @ [in_line ''q.root''])
       = [''p.root'', ''q.root'']
   \<and> search_fname (strip (separator_line ''b.root'')) = Some ''b.root''
   \<and> endswith (strip (separator_line ''b.root'')) ''-->''
   \<and> process_line False (separator_line ''b.root'') = (False, None)
   \<and> endswith (strip nbsp_close_line) ''-->''
   \<and> ntuple_filenames False
        ([comment_open_line] @ [nbsp_close_line] @ [in_line ''q.root'', comment_close_line])
       = [''q.root'']"
proof -
  have m: "search_fname (strip (checked_line ''a.root'')) = Some ''a.root''"
    by code_simp
  have e: "endswith (strip (checked_line ''a.root'')) ''-->''"
    by code_simp
  have p: "ntuple_filenames False [in_line ''p.root''] = [''p.root'']"
    by code_simp
  have q: "ntuple_filenames False [in_line ''q.root''] = [''q.root'']"
    by code_simp
  have r1: "process_line False (checked_line ''a.root'') = (False, None)
     \<and> ntuple_filenames False
        ([in_line ''p.root''] @ [checked_line ''a.root''] @ [in_line ''q.root''])
       = [''p.root'', ''q.root'']"
    using closing_line_skipped [OF e, of False "[in_line ''p.root'']" "[in_line ''q.root'']"]
      p q by simp
  have m2: "search_fname (strip (separator_line ''b.root'')) = Some ''b.root''"
    by code_simp
  have e2: "endswith (strip (separator_line ''b.root'')) ''-->''"
    by code_simp
  have r2: "process_line False (separator_line ''b.root'') = (False, None)"
    using closing_line_skipped [OF e2, of False "[]" "[]"] by simp
  have e3: "endswith (strip nbsp_close_line) ''-->''"
    by code_simp
  have o: "ntuple_filenames False [comment_open_line] = []"
    by code_simp
  have q3: "ntuple_filenames False [in_line ''q.root'', comment_close_line] = [''q.root'']"
    by code_simp
  have r3: "ntuple_filenames False
        ([comment_open_line] @ [nbsp_close_line] @ [in_line ''q.root'', comment_close_line])
       = [''q.root'']"
    using closing_line_skipped [OF e3, of False "[comment_open_line]"
        "[in_line ''q.root'', comment_close_line]"] o q3 by simp
  from m e r1 m2 e2 r2 e3 r3 show ?thesis by blast
qed

subsection \<open>Splitting and joining\<close>

lemma split_not_Nil: "split sep s \<noteq> []"
  by (induction s) (auto split: list.splits)

lemma split_no_sep: "sep \<notin> set s \<Longrightarrow> split sep s = [s]"
  by (induction s) auto

lemma split_append_sep: "split sep (a @ sep # b) = split sep a @ split sep b"
proof (induction a)
  case Nil
  then show ?case by simp
next
  case (Cons c a)
  then show ?case
    using split_not_Nil [of sep a] by (auto split: list.splits)
qed

lemma split_snoc_part: "sep \<notin> set s \<Longrightarrow> split sep (a @ sep # s) = split sep a @ [s]"
  by (simp add: split_append_sep split_no_sep)

lemma join_split: "join [sep] (split sep s) = s"
proof (induction s)
  case Nil
  then show ?case by simp
next
  case (Cons c s)
  show ?case
  proof (cases "c = sep")
    case True
    then show ?thesis
      using Cons split_not_Nil [of sep s] by (cases "split sep s") auto
  next
    case False
    then show ?thesis
      using Cons split_not_Nil [of sep s]
      by (cases "split sep s") (auto split: list.splits, (metis join.simps(2,3) append_Cons list.exhaust)+)
  qed
qed

lemma join_append:
  "xs \<noteq> [] \<Longrightarrow> ys \<noteq> [] \<Longrightarrow> join sep (xs @ ys) = join sep xs @ sep @ join sep ys"
  by (induction sep xs rule: join.induct) (auto simp: neq_Nil_conv)

lemma join_snoc: "xs \<noteq> [] \<Longrightarrow> join sep (xs @ [y]) = join sep xs @ sep @ y"
  by (simp add: join_append)

lemma split_join:
  "xs \<noteq> [] \<Longrightarrow> \<forall>x \<in> set xs. sep \<notin> set x \<Longrightarrow> split sep (join [sep] xs) = xs"
proof (induction "[sep]" xs rule: join.induct)
  case 1
  then show ?case by simp
next
  case (2 x)
  then show ?case by (simp add: split_no_sep)
next
  case (3 x y ys)
  then show ?case by (simp add: split_append_sep split_no_sep)
qed

lemma startswith_iff: "startswith s pre \<longleftrightarrow> (\<exists>t. s = pre @ t)"
  unfolding startswith_def
  by (metis append_eq_conv_conj append_take_drop_id)

lemma contains_iff: "contains sub s \<longleftrightarrow> (\<exists>a b. s = a @ sub @ b)"
proof (induction s)
  case Nil
  then show ?case by auto
next
  case (Cons c s)
  show ?case
  proof
    assume "contains sub (c # s)"
    then consider "startswith (c # s) sub" | "contains sub s" by auto
    then show "\<exists>a b. c # s = a @ sub @ b"
    proof cases
      case 1
      then obtain t where "c # s = sub @ t" by (auto simp: startswith_iff)
      then have "c # s = [] @ sub @ t" by simp
      then show ?thesis by blast
    next
      case 2
      then obtain a b where "s = a @ sub @ b" using Cons by auto
      then have "c # s = (c # a) @ sub @ b" by simp
      then show ?thesis by blast
    qed
  next
    assume "\<exists>a b. c # s = a @ sub @ b"
    then obtain a b where ab: "c # s = a @ sub @ b" by blast
    show "contains sub (c # s)"
    proof (cases a)
      case Nil
      then have "startswith (c # s) sub" using ab by (auto simp: startswith_iff)
      then show ?thesis by simp
    next
      case (Cons c' a')
      then have "s = a' @ sub @ b" using ab by simp
      then have "contains sub s" using Cons.IH by blast
      then show ?thesis by simp
    qed
  qed
qed

subsection \<open>The owner of a directory\<close>

lemma index_first: "x \<notin> set pre \<Longrightarrow> index (pre @ x # rest) x = Inr (length pre)"
  by (induction pre) auto

lemma user_after_first:
  assumes "m \<notin> set pre"
  shows "user_after (pre @ m # rest) m = Inr (case rest of [] \<Rightarrow> None | u # _ \<Rightarrow> Some u)"
  using assms
  by (cases rest) (simp_all add: user_after_def index_first getitem_def nth_append)

lemma index_absent: "x \<notin> set xs \<Longrightarrow> index xs x = Inl ValueError"
  by (induction xs) auto

lemma contains_marker_split:
  assumes "contains (CHR ''/'' # m @ ''/'') s" and "CHR ''/'' \<notin> set m"
  shows "\<exists>pre u rest. split CHR ''/'' s = pre @ m # u # rest \<and> m \<notin> set pre"
proof -
  from assms(1) obtain a b where "s = a @ (CHR ''/'' # m @ ''/'') @ b"
    by (auto simp: contains_iff)
  then have s: "s = a @ CHR ''/'' # (m @ CHR ''/'' # b)" by simp
  have sp: "split CHR ''/'' s = split CHR ''/'' a @ m # split CHR ''/'' b"
    unfolding s using assms(2) by (simp add: split_append_sep split_no_sep)
  have "m \<in> set (split CHR ''/'' a @ [m])" by simp
  then obtain pre rest' where pr: "split CHR ''/'' a @ [m] = pre @ m # rest'" "m \<notin> set pre"
    by (meson split_list_first)
  obtain u us where b: "split CHR ''/'' b = u # us"
    using split_not_Nil [of "CHR ''/''" b] by (cases "split CHR ''/'' b") auto
  have "split CHR ''/'' s = (split CHR ''/'' a @ [m]) @ split CHR ''/'' b"
    using sp by simp
  also have "\<dots> = pre @ m # (rest' @ u # us)"
    using pr(1) b by simp
  finally have "split CHR ''/'' s = pre @ m # (rest' @ u # us)" .
  then show ?thesis using pr(2) by (cases rest') auto
qed

lemma get_dir_user_total: "\<exists>u. get_dir_user d = Inr u"
proof -
  have m: "\<exists>u. user_after (split CHR ''/'' n) m = Inr u"
    if "contains (CHR ''/'' # m @ ''/'') n" "CHR ''/'' \<notin> set m" for n m
  proof -
    from contains_marker_split [OF that] obtain pre u rest
      where "split CHR ''/'' n = pre @ m # u # rest" "m \<notin> set pre" by blast
    then show ?thesis by (simp add: user_after_first)
  qed
  show ?thesis
    using m [of "''user''" "normpath d"] m [of "''group''" "normpath d"]
    by (auto simp: get_dir_user_def Let_def)
qed

text \<open>
  C7: for a path that is no directory, \<^verbatim>\<open>get_ntuple_dir_data\<close> raises nothing and returns
  the size \<open>-1\<close> and the creation time \<^verbatim>\<open>"-1"\<close>, with the path and the owner that
  \<^verbatim>\<open>get_dir_user\<close> returns for it.
\<close>

theorem get_ntuple_dir_data_absent:
  assumes "\<not> isdir env d"
  shows "\<exists>u. get_dir_user d = Inr u \<and>
     get_ntuple_dir_data env d =
       Inr \<lparr>ntuple_dir = d, size_kb = - 1, user = u, creation_time = ''-1''\<rparr>"
proof -
  obtain u where "get_dir_user d = Inr u"
    using get_dir_user_total by blast
  then show ?thesis
    using assms by (simp add: get_ntuple_dir_data_def)
qed

theorem get_ntuple_dir_data_absent_witness:
  "\<not> isdir example_env ''/pnfs/store/user/alice/job''
   \<and> get_ntuple_dir_data example_env ''/pnfs/store/user/alice/job'' =
       Inr \<lparr>ntuple_dir = ''/pnfs/store/user/alice/job'', size_kb = - 1,
            user = Some ''alice'', creation_time = ''-1''\<rparr>"
proof -
  have a: "\<not> isdir example_env ''/pnfs/store/user/alice/job''"
    by (simp add: example_env_def)
  have u: "get_dir_user ''/pnfs/store/user/alice/job'' = Inr (Some ''alice'')"
    by code_simp
  from get_ntuple_dir_data_absent [OF a] u a
  show ?thesis by auto
qed

text \<open>
  C10: \<^verbatim>\<open>get_dir_user\<close> always returns, and whenever \<^verbatim>\<open>get_ntuple_dir_data\<close> returns,
  the user of its data is what \<^verbatim>\<open>get_dir_user\<close> returns for the path and the
  directory of its data is the path, whether the directory exists or not.  It fails to
  return only when the directory exists and \<^verbatim>\<open>lstat\<close> raises on it.
\<close>

theorem get_ntuple_dir_data_user:
  "\<exists>u. get_dir_user d = Inr u \<and>
     (case get_ntuple_dir_data env d of
        Inl e \<Rightarrow> e = OSError \<and> isdir env d \<and> lstat env d = None
      | Inr data \<Rightarrow> user data = u \<and> ntuple_dir data = d)"
proof -
  obtain u where "get_dir_user d = Inr u"
    using get_dir_user_total by blast
  then show ?thesis
    by (auto simp: get_ntuple_dir_data_def get_creation_time_def split: option.splits)
qed

subsection \<open>The year of a descriptor\<close>

lemma first_year_find: "first_year parts = List.find is_year parts"
  by (induction parts) auto

lemma year_after_branch_none:
  "\<forall>p \<in> set ps. \<not> contains branch_pattern p \<Longrightarrow> year_after_branch parts ps = None"
  by (induction ps) auto

lemma year_after_branch_first:
  assumes "\<forall>p \<in> set pre. \<not> contains branch_pattern p" and "contains branch_pattern b"
  shows "year_after_branch parts (pre @ b # rest) =
     Some (case index parts b of
             Inl e \<Rightarrow> Inl e
           | Inr ind \<Rightarrow>
               if int ind = int (length parts) - 1 then Inr None
               else (case getitem parts (ind + 1) of
                       Inl e \<Rightarrow> Inl e
                     | Inr yr \<Rightarrow> Inr (if is_year yr then Some yr else None)))"
  using assms by (induction pre) auto

lemma get_year_from_path_branch:
  assumes s: "split CHR ''/'' path = pre @ b # rest"
    and pre: "\<forall>p \<in> set pre. \<not> contains branch_pattern p"
    and b: "contains branch_pattern b"
  shows "get_year_from_path path =
     Inr (case rest of [] \<Rightarrow> None | y # _ \<Rightarrow> if is_year y then Some y else None)"
proof -
  have "b \<notin> set pre" using pre b by blast
  then have i: "index (pre @ b # rest) b = Inr (length pre)"
    by (rule index_first)
  show ?thesis
    unfolding get_year_from_path_def Let_def s year_after_branch_first [OF pre b] i
    by (cases rest) (simp_all add: getitem_def nth_append)
qed

lemma get_year_from_path_no_branch:
  assumes "\<forall>p \<in> set (split CHR ''/'' path). \<not> contains branch_pattern p"
  shows "get_year_from_path path = Inr (List.find is_year (split CHR ''/'' path))"
  using assms
  by (simp add: get_year_from_path_def Let_def year_after_branch_none first_year_find)

text \<open>
  C4: \<^verbatim>\<open>get_year_from_path\<close> never raises.  When a part of the path contains
  \<^verbatim>\<open>RunII_\<close>, the first such part decides: the result is the part right after it if
  that part is a year, and \<^verbatim>\<open>None\<close> if it is not or if there is no part after it.  When no
  part contains \<^verbatim>\<open>RunII_\<close>, the result is the first part that is a year, \<^verbatim>\<open>None\<close> if
  there is none.  A part is a year when it contains \<^verbatim>\<open>16\<close>, \<^verbatim>\<open>17\<close> or \<^verbatim>\<open>18\<close> and does
  not contain \<^verbatim>\<open>.xml\<close>.
\<close>

theorem get_year_from_path_cases:
  "(split CHR ''/'' path = pre @ b # rest
      \<and> (\<forall>p \<in> set pre. \<not> contains ''RunII_'' p) \<and> contains ''RunII_'' b
    \<longrightarrow> get_year_from_path path =
          Inr (case rest of [] \<Rightarrow> None | y # _ \<Rightarrow> if is_year y then Some y else None))
   \<and> ((\<forall>p \<in> set (split CHR ''/'' path). \<not> contains ''RunII_'' p)
    \<longrightarrow> get_year_from_path path = Inr (List.find is_year (split CHR ''/'' path)))
   \<and> (is_year y \<longleftrightarrow>
        (contains ''16'' y \<or> contains ''17'' y \<or> contains ''18'' y) \<and> \<not> contains ''.xml'' y)"
  using get_year_from_path_branch [of path pre b rest] get_year_from_path_no_branch [of path]
  by (simp add: branch_pattern_def is_year_def)

theorem get_year_from_path_cases_witness:
  "split CHR ''/'' ''../common/dataset/RunII_102X_v1/2017v2/MC_TTbar.xml'' =
      [''..'', ''common'', ''dataset''] @ ''RunII_102X_v1'' # [''2017v2'', ''MC_TTbar.xml'']
   \<and> \<not> contains ''RunII_'' ''..'' \<and> \<not> contains ''RunII_'' ''common''
   \<and> \<not> contains ''RunII_'' ''dataset'' \<and> contains ''RunII_'' ''RunII_102X_v1''
   \<and> is_year ''2017v2''
   \<and> get_year_from_path ''../common/dataset/RunII_102X_v1/2017v2/MC_TTbar.xml'' =
        Inr (Some ''2017v2'')
   \<and> split CHR ''/'' ''common/RunII_foo/bar.xml'' = [''common''] @ ''RunII_foo'' # [''bar.xml'']
   \<and> \<not> is_year ''bar.xml''
   \<and> get_year_from_path ''common/RunII_foo/bar.xml'' = Inr None
   \<and> split CHR ''/'' ''common/RunII_foo'' = [''common''] @ ''RunII_foo'' # []
   \<and> get_year_from_path ''common/RunII_foo'' = Inr None
   \<and> split CHR ''/'' ''legacy/2016v3/MC_18.xml'' = [''legacy'', ''2016v3'', ''MC_18.xml'']
   \<and> \<not> contains ''RunII_'' ''legacy'' \<and> \<not> contains ''RunII_'' ''2016v3''
   \<and> \<not> contains ''RunII_'' ''MC_18.xml''
   \<and> get_year_from_path ''legacy/2016v3/MC_18.xml'' = Inr (Some ''2016v3'')
   \<and> get_year_from_path ''legacy/2019/MC.xml'' = Inr None"
proof -
  have s1: "split CHR ''/'' ''../common/dataset/RunII_102X_v1/2017v2/MC_TTbar.xml'' =
      [''..'', ''common'', ''dataset''] @ ''RunII_102X_v1'' # [''2017v2'', ''MC_TTbar.xml'']"
    by code_simp
  have n1: "\<not> contains ''RunII_'' ''..''" "\<not> contains ''RunII_'' ''common''"
    "\<not> contains ''RunII_'' ''dataset''" "contains ''RunII_'' ''RunII_102X_v1''"
    by code_simp+
  have y1: "is_year ''2017v2''" by code_simp
  have r1: "get_year_from_path ''../common/dataset/RunII_102X_v1/2017v2/MC_TTbar.xml'' =
        Inr (Some ''2017v2'')"
    using get_year_from_path_cases [of "''../common/dataset/RunII_102X_v1/2017v2/MC_TTbar.xml''"
        "[''..'', ''common'', ''dataset'']" "''RunII_102X_v1''" "[''2017v2'', ''MC_TTbar.xml'']"]
      s1 n1 y1 by simp
  have s2: "split CHR ''/'' ''common/RunII_foo/bar.xml'' = [''common''] @ ''RunII_foo'' # [''bar.xml'']"
    by code_simp
  have n2: "contains ''RunII_'' ''RunII_foo''" by code_simp
  have y2: "\<not> is_year ''bar.xml''" by code_simp
  have r2: "get_year_from_path ''common/RunII_foo/bar.xml'' = Inr None"
    using get_year_from_path_cases [of "''common/RunII_foo/bar.xml''"
        "[''common'']" "''RunII_foo''" "[''bar.xml'']"]
      s2 n1 n2 y2 by simp
  have s3: "split CHR ''/'' ''common/RunII_foo'' = [''common''] @ ''RunII_foo'' # []"
    by code_simp
  have r3: "get_year_from_path ''common/RunII_foo'' = Inr None"
    using get_year_from_path_cases [of "''common/RunII_foo''" "[''common'']" "''RunII_foo''" "[]"]
      s3 n1 n2 by simp
  have s4: "split CHR ''/'' ''legacy/2016v3/MC_18.xml'' = [''legacy'', ''2016v3'', ''MC_18.xml'']"
    by code_simp
  have n4: "\<not> contains ''RunII_'' ''legacy''" "\<not> contains ''RunII_'' ''2016v3''"
    "\<not> contains ''RunII_'' ''MC_18.xml''"
    by code_simp+
  have f4: "List.find is_year [''legacy'', ''2016v3'', ''MC_18.xml''] = Some ''2016v3''"
    by code_simp
  have r4: "get_year_from_path ''legacy/2016v3/MC_18.xml'' = Inr (Some ''2016v3'')"
    using get_year_from_path_cases [of "''legacy/2016v3/MC_18.xml''"] s4 n4 f4 by simp
  have s5: "split CHR ''/'' ''legacy/2019/MC.xml'' = [''legacy'', ''2019'', ''MC.xml'']"
    by code_simp
  have n5: "\<not> contains ''RunII_'' ''2019''" "\<not> contains ''RunII_'' ''MC.xml''"
    by code_simp+
  have f5: "List.find is_year [''legacy'', ''2019'', ''MC.xml''] = None"
    by code_simp
  have r5: "get_year_from_path ''legacy/2019/MC.xml'' = Inr None"
    using get_year_from_path_cases [of "''legacy/2019/MC.xml''"] s5 n4 n5 f5 by simp
  from s1 n1 y1 r1 s2 y2 r2 s3 r3 s4 n4 r4 r5 show ?thesis by blast
qed

subsection \<open>Segments of a normalised path\<close>

lemma split_parts_no_sep: "x \<in> set (split sep s) \<Longrightarrow> sep \<notin> set x"
proof (induction s arbitrary: x)
  case Nil
  then show ?case by simp
next
  case (Cons c s)
  then show ?case
    using split_not_Nil [of sep s]
    by (cases "split sep s") (auto split: if_splits)
qed

lemma split_Cons_sep: "split sep (sep # s) = [] # split sep s"
  by simp

lemma split_slashes_join:
  assumes "\<forall>x \<in> set st. CHR ''/'' \<notin> set x"
  shows "split CHR ''/'' (replicate k CHR ''/'' @ join ''/'' st) =
           replicate k [] @ (if st = [] then [[]] else st)"
proof (induction k)
  case 0
  show ?case using assms split_join [of st "CHR ''/''"] by simp
next
  case (Suc k)
  then show ?case by simp
qed

lemma norm_step_subseq: "subseq (norm_step k acc c) (acc @ [c])"
proof -
  have "subseq (butlast acc) acc"
    by (metis append_butlast_last_id butlast.simps(1) list_emb_prefix subseq_order.refl)
  then have "subseq (butlast acc) (acc @ [c])" by (rule subseq_rev_drop_many)
  then show ?thesis by (auto simp: norm_step_def subseq_rev_drop_many)
qed

lemma foldl_norm_step_subseq: "subseq (foldl (norm_step k) acc cs) (acc @ cs)"
proof (induction cs arbitrary: acc)
  case Nil
  then show ?case by simp
next
  case (Cons c cs)
  have "subseq (foldl (norm_step k) (norm_step k acc c) cs) (norm_step k acc c @ cs)"
    by (rule Cons.IH)
  moreover have "subseq (norm_step k acc c @ cs) ((acc @ [c]) @ cs)"
    using norm_step_subseq by (metis subseq_append)
  ultimately show ?case by (simp add: subseq_order.trans)
qed

lemma inner_decomp:
  "m \<in> set (butlast (tl parts)) \<longleftrightarrow> (\<exists>xs ys. parts = xs @ m # ys \<and> xs \<noteq> [] \<and> ys \<noteq> [])"
proof
  assume "m \<in> set (butlast (tl parts))"
  then obtain us vs where b: "butlast (tl parts) = us @ m # vs"
    by (meson split_list)
  then have nn: "tl parts \<noteq> []" by auto
  then have t: "tl parts = (us @ m # vs) @ [last (tl parts)]"
    using b by (metis append_butlast_last_id)
  have "parts \<noteq> []" using nn by auto
  then have "parts = hd parts # tl parts" by simp
  then have "parts = (hd parts # us) @ m # (vs @ [last (tl parts)])"
    using t by simp
  then show "\<exists>xs ys. parts = xs @ m # ys \<and> xs \<noteq> [] \<and> ys \<noteq> []" by blast
next
  assume "\<exists>xs ys. parts = xs @ m # ys \<and> xs \<noteq> [] \<and> ys \<noteq> []"
  then obtain xs ys where p: "parts = xs @ m # ys" "xs \<noteq> []" "ys \<noteq> []" by blast
  then obtain x xs' where "xs = x # xs'" by (cases xs) auto
  then have "tl parts = xs' @ m # ys" using p by simp
  then show "m \<in> set (butlast (tl parts))"
    using p(3) by (simp add: butlast_append)
qed

lemma contains_marker_iff:
  assumes "CHR ''/'' \<notin> set m"
  shows "contains (CHR ''/'' # m @ ''/'') s \<longleftrightarrow> m \<in> set (butlast (tl (split CHR ''/'' s)))"
proof
  assume "contains (CHR ''/'' # m @ ''/'') s"
  then obtain a b where "s = a @ (CHR ''/'' # m @ ''/'') @ b"
    by (auto simp: contains_iff)
  then have s: "s = a @ CHR ''/'' # (m @ CHR ''/'' # b)" by simp
  have "split CHR ''/'' s = split CHR ''/'' a @ m # split CHR ''/'' b"
    unfolding s using assms by (simp add: split_append_sep split_no_sep)
  then show "m \<in> set (butlast (tl (split CHR ''/'' s)))"
    unfolding inner_decomp using split_not_Nil by blast
next
  assume "m \<in> set (butlast (tl (split CHR ''/'' s)))"
  then obtain xs ys where p: "split CHR ''/'' s = xs @ m # ys" "xs \<noteq> []" "ys \<noteq> []"
    unfolding inner_decomp by blast
  have "s = join ''/'' (xs @ m # ys)"
    using join_split [of "CHR ''/''" s] p(1) by simp
  also have "\<dots> = join ''/'' xs @ ''/'' @ join ''/'' (m # ys)"
    using p(2) by (simp add: join_append)
  also have "join ''/'' (m # ys) = m @ ''/'' @ join ''/'' ys"
    using p(3) by (cases ys) auto
  finally have "s = join ''/'' xs @ (CHR ''/'' # m @ ''/'') @ join ''/'' ys" by simp
  then show "contains (CHR ''/'' # m @ ''/'') s"
    unfolding contains_iff by blast
qed

lemma subseq_member: "subseq xs ys \<Longrightarrow> x \<in> set xs \<Longrightarrow> x \<in> set ys"
  by (erule list_emb_set) auto

lemma norm_step_no_empty:
  "[] \<notin> set acc \<Longrightarrow> [] \<notin> set (norm_step k acc c)"
  by (auto simp: norm_step_def dest: in_set_butlastD)

lemma foldl_norm_step_no_empty:
  "[] \<notin> set acc \<Longrightarrow> [] \<notin> set (foldl (norm_step k) acc cs)"
  by (induction cs arbitrary: acc) (simp_all add: norm_step_no_empty)

lemma initial_slashes_pos: "0 < initial_slashes p \<longleftrightarrow> (\<exists>t. p = CHR ''/'' # t)"
  by (cases p) (auto simp: initial_slashes_def startswith_def)

lemma join_eq_Nil:
  assumes "join ''/'' st = []" and "[] \<notin> set st"
  shows "st = []"
proof (cases st)
  case Nil
  then show ?thesis .
next
  case (Cons x xs)
  then show ?thesis using assms by (cases xs) auto
qed

lemma norm_comps_subseq: "subseq (norm_comps p) (split CHR ''/'' p)"
  unfolding norm_comps_def using foldl_norm_step_subseq [of "initial_slashes p" "[]"] by simp

lemma norm_comps_no_sep:
  assumes "x \<in> set (norm_comps p)"
  shows "CHR ''/'' \<notin> set x"
proof -
  have "x \<in> set (split CHR ''/'' p)"
    using norm_comps_subseq assms by (rule subseq_member)
  then show ?thesis by (rule split_parts_no_sep)
qed

lemma norm_comps_no_empty: "[] \<notin> set (norm_comps p)"
  unfolding norm_comps_def by (rule foldl_norm_step_no_empty) simp

lemma normpath_eq:
  "normpath p =
     (if p = [] \<or> (initial_slashes p = 0 \<and> norm_comps p = []) then ''.''
      else replicate (initial_slashes p) CHR ''/'' @ join ''/'' (norm_comps p))"
proof (cases "p = []")
  case True
  then show ?thesis by (simp add: normpath_def)
next
  case False
  define k where "k = initial_slashes p"
  define st where "st = norm_comps p"
  have n: "normpath p = (if replicate k CHR ''/'' @ join ''/'' st = [] then ''.''
      else replicate k CHR ''/'' @ join ''/'' st)"
    using False by (simp only: normpath_def Let_def norm_comps_def k_def st_def if_False)
  have "[] \<notin> set st" unfolding st_def by (rule norm_comps_no_empty)
  then have "join ''/'' st = [] \<longleftrightarrow> st = []"
    using join_eq_Nil [of st] by auto
  then have e: "replicate k CHR ''/'' @ join ''/'' st = [] \<longleftrightarrow> k = 0 \<and> st = []"
    by simp
  show ?thesis
    unfolding n e using False by (simp add: k_def st_def)
qed

lemma split_normpath:
  "split CHR ''/'' (normpath p) =
     (if p = [] \<or> (initial_slashes p = 0 \<and> norm_comps p = []) then [''.'']
      else replicate (initial_slashes p) [] @
           (if norm_comps p = [] then [[]] else norm_comps p))"
proof (cases "p = [] \<or> (initial_slashes p = 0 \<and> norm_comps p = [])")
  case True
  then have "normpath p = ''.''" by (simp add: normpath_eq)
  then show ?thesis using True by simp
next
  case False
  have "\<forall>x \<in> set (norm_comps p). CHR ''/'' \<notin> set x"
    using norm_comps_no_sep by blast
  from split_slashes_join [OF this, of "initial_slashes p"]
  have "split CHR ''/'' (normpath p) = replicate (initial_slashes p) [] @
           (if norm_comps p = [] then [[]] else norm_comps p)"
    using False by (simp only: normpath_eq if_False)
  then show ?thesis using False by (simp only: if_False)
qed

lemma inner_replicate:
  assumes "replicate k [] @ st = xs @ m # ys" and "m \<noteq> []"
  shows "\<exists>xs'. st = xs' @ m # ys \<and> xs = replicate k [] @ xs'"
  using assms
proof (induction k arbitrary: xs)
  case 0
  then show ?case by simp
next
  case (Suc k)
  then show ?case by (cases xs) auto
qed

lemma subseq_inner:
  assumes "subseq (xs @ m # ys) zs"
  shows "\<exists>us vs. zs = us @ m # vs \<and> subseq xs us \<and> subseq ys vs"
proof -
  from list_emb_appendD [OF assms] obtain us vs'
    where z: "zs = us @ vs'" and x: "subseq xs us" and r: "subseq (m # ys) vs'"
    by blast
  from list_emb_ConsD [OF r] obtain us2 v vs
    where v: "vs' = us2 @ v # vs" "m = v" "subseq ys vs"
    by blast
  have "zs = (us @ us2) @ m # vs" using z v by simp
  moreover have "subseq xs (us @ us2)" using x by (rule subseq_rev_drop_many)
  ultimately show ?thesis using v(3) by blast
qed

lemma subseq_Nil_right: "subseq xs [] \<Longrightarrow> xs = []"
  by simp

lemma normpath_inner:
  assumes m: "m \<noteq> []" "m \<noteq> ''.''"
    and i: "m \<in> set (butlast (tl (split CHR ''/'' (normpath p))))"
  shows "m \<in> set (butlast (tl (split CHR ''/'' p)))"
proof -
  define k where "k = initial_slashes p"
  define st where "st = norm_comps p"
  from i obtain xs ys where d: "split CHR ''/'' (normpath p) = xs @ m # ys" "xs \<noteq> []" "ys \<noteq> []"
    unfolding inner_decomp by blast
  have ne: "\<not> (p = [] \<or> (k = 0 \<and> st = []))"
  proof
    assume "p = [] \<or> (k = 0 \<and> st = [])"
    then have "split CHR ''/'' (normpath p) = [''.'']"
      by (simp add: split_normpath k_def st_def)
    then show False using d by (cases xs) auto
  qed
  then have s: "split CHR ''/'' (normpath p) = replicate k [] @ (if st = [] then [[]] else st)"
    by (simp add: split_normpath k_def st_def)
  from inner_replicate [OF s [unfolded d(1), symmetric] m(1)] obtain xs'
    where x: "(if st = [] then [[]] else st) = xs' @ m # ys" "xs = replicate k [] @ xs'"
    by blast
  have stne: "st \<noteq> []"
  proof
    assume "st = []"
    then have "[[]] = xs' @ m # ys" using x(1) by simp
    then show False using m(1) by (cases xs') auto
  qed
  then have st: "st = xs' @ m # ys" using x(1) by simp
  have "subseq st (split CHR ''/'' p)"
    unfolding st_def by (rule norm_comps_subseq)
  from subseq_inner [OF this [unfolded st]] obtain us vs
    where z: "split CHR ''/'' p = us @ m # vs" "subseq xs' us" "subseq ys vs"
    by blast
  have "vs \<noteq> []" using z(3) d(3) by auto
  moreover have "us \<noteq> []"
  proof
    assume u: "us = []"
    then have "xs' = []" using z(2) by simp
    then have "0 < k" using x(2) d(2) by auto
    then obtain t where "p = CHR ''/'' # t"
      unfolding k_def initial_slashes_pos by blast
    then have "split CHR ''/'' p = [] # split CHR ''/'' t" by simp
    then show False using z(1) u m(1) by simp
  qed
  ultimately show ?thesis
    unfolding inner_decomp using z(1) by blast
qed

lemma normpath_contains_marker:
  assumes "m \<noteq> []" "m \<noteq> ''.''" "CHR ''/'' \<notin> set m"
    and "contains (CHR ''/'' # m @ ''/'') (normpath p)"
  shows "contains (CHR ''/'' # m @ ''/'') p"
  using assms normpath_inner [of m p] by (simp add: contains_marker_iff)

lemma get_dir_user_eq:
  "get_dir_user p =
     (let parts = split CHR ''/'' (normpath p)
      in if ''user'' \<in> set (butlast (tl parts)) then user_after parts ''user''
         else if ''group'' \<in> set (butlast (tl parts)) then user_after parts ''group''
         else Inr None)"
proof -
  have u: "contains ''/user/'' p" if "contains ''/user/'' (normpath p)"
    using normpath_contains_marker [of "''user''" p] that by simp
  have g: "contains ''/group/'' p" if "contains ''/group/'' (normpath p)"
    using normpath_contains_marker [of "''group''" p] that by simp
  have cu: "contains ''/user/'' s \<longleftrightarrow> ''user'' \<in> set (butlast (tl (split CHR ''/'' s)))" for s
    using contains_marker_iff [of "''user''" s] by simp
  have cg: "contains ''/group/'' s \<longleftrightarrow> ''group'' \<in> set (butlast (tl (split CHR ''/'' s)))" for s
    using contains_marker_iff [of "''group''" s] by simp
  show ?thesis
    using u g unfolding get_dir_user_def Let_def cu cg by auto
qed

text \<open>
  C5, as claimed: whenever \<^verbatim>\<open>user\<close> is a segment of the normalised path, the segment
  after its first occurrence would be returned (none if it is the last), \<^verbatim>\<open>user\<close> being
  looked for before \<^verbatim>\<open>group\<close>.  The path \<^verbatim>\<open>user/alice/ntuples\<close>, where \<^verbatim>\<open>user\<close> is
  the first segment only, returns \<^verbatim>\<open>None\<close> instead of \<^verbatim>\<open>alice\<close>, and the path
  \<^verbatim>\<open>/store/group/uhh/user\<close>, where \<^verbatim>\<open>user\<close> is the last segment only, returns \<^verbatim>\<open>uhh\<close>
  instead of \<^verbatim>\<open>None\<close>.
\<close>

theorem get_dir_user_relative_counterexample:
  "split CHR ''/'' (normpath ''user/alice/ntuples'') = [''user'', ''alice'', ''ntuples'']
   \<and> get_dir_user ''user/alice/ntuples'' = Inr None
   \<and> split CHR ''/'' (normpath ''/store/group/uhh/user'') = ['''', ''store'', ''group'', ''uhh'', ''user'']
   \<and> get_dir_user ''/store/group/uhh/user'' = Inr (Some ''uhh'')"
  by code_simp

text \<open>
  C5, amended: the function never raises.  A marker counts only where it is an inner
  segment of the normalised path, neither the first nor the last.  If \<^verbatim>\<open>user\<close> is an
  inner segment, the result is the segment right after the first occurrence of
  \<^verbatim>\<open>user\<close> among the segments (that occurrence may be the first segment), and there
  is such a segment; otherwise, if \<^verbatim>\<open>group\<close> is an inner segment, the result is the
  segment right after the first occurrence of \<^verbatim>\<open>group\<close>; otherwise, when neither is an
  inner segment, the result is \<^verbatim>\<open>None\<close>.
\<close>

theorem get_dir_user_cases:
  "(\<exists>u. get_dir_user p = Inr u)
   \<and> (''user'' \<in> set (butlast (tl (split CHR ''/'' (normpath p))))
      \<and> split CHR ''/'' (normpath p) = pre @ ''user'' # rest \<and> ''user'' \<notin> set pre
    \<longrightarrow> rest \<noteq> [] \<and> get_dir_user p = Inr (Some (hd rest)))
   \<and> (''user'' \<notin> set (butlast (tl (split CHR ''/'' (normpath p))))
      \<and> ''group'' \<in> set (butlast (tl (split CHR ''/'' (normpath p))))
      \<and> split CHR ''/'' (normpath p) = pre @ ''group'' # rest \<and> ''group'' \<notin> set pre
    \<longrightarrow> rest \<noteq> [] \<and> get_dir_user p = Inr (Some (hd rest)))
   \<and> (''user'' \<notin> set (butlast (tl (split CHR ''/'' (normpath p))))
      \<and> ''group'' \<notin> set (butlast (tl (split CHR ''/'' (normpath p))))
    \<longrightarrow> get_dir_user p = Inr None)"
proof -
  have first: "rest \<noteq> [] \<and> user_after parts m = Inr (Some (hd rest))"
    if i: "m \<in> set (butlast (tl parts))" and d: "parts = pre @ m # rest" and n: "m \<notin> set pre"
    for m parts
  proof -
    from i obtain xs ys where x: "parts = xs @ m # ys" "xs \<noteq> []" "ys \<noteq> []"
      unfolding inner_decomp by blast
    have "rest \<noteq> []"
    proof
      assume "rest = []"
      then have "xs @ m # ys = pre @ [m]" using x(1) d by simp
      then have "butlast (xs @ m # ys) = pre" by (metis butlast_snoc)
      then have "m \<in> set pre" using x(3) by (auto simp: butlast_append)
      then show False using n by simp
    qed
    then show ?thesis
      unfolding d user_after_first [OF n] by (cases rest) auto
  qed
  have "\<exists>u. get_dir_user p = Inr u"
    by (rule get_dir_user_total)
  moreover have "''user'' \<in> set (butlast (tl (split CHR ''/'' (normpath p))))
      \<and> split CHR ''/'' (normpath p) = pre @ ''user'' # rest \<and> ''user'' \<notin> set pre
    \<longrightarrow> rest \<noteq> [] \<and> get_dir_user p = Inr (Some (hd rest))"
    unfolding get_dir_user_eq Let_def using first by auto
  moreover have "''user'' \<notin> set (butlast (tl (split CHR ''/'' (normpath p))))
      \<and> ''group'' \<in> set (butlast (tl (split CHR ''/'' (normpath p))))
      \<and> split CHR ''/'' (normpath p) = pre @ ''group'' # rest \<and> ''group'' \<notin> set pre
    \<longrightarrow> rest \<noteq> [] \<and> get_dir_user p = Inr (Some (hd rest))"
    unfolding get_dir_user_eq Let_def using first by auto
  moreover have "''user'' \<notin> set (butlast (tl (split CHR ''/'' (normpath p))))
      \<and> ''group'' \<notin> set (butlast (tl (split CHR ''/'' (normpath p))))
    \<longrightarrow> get_dir_user p = Inr None"
    unfolding get_dir_user_eq Let_def by auto
  ultimately show ?thesis by blast
qed

theorem get_dir_user_cases_witness:
  "split CHR ''/'' (normpath ''/pnfs/desy.de/cms/tier2//store/user/abenecke/RunII_102X_v1/'') =
      ['''', ''pnfs'', ''desy.de'', ''cms'', ''tier2'', ''store''] @ ''user'' # [''abenecke'', ''RunII_102X_v1'']
   \<and> get_dir_user ''/pnfs/desy.de/cms/tier2//store/user/abenecke/RunII_102X_v1/'' = Inr (Some ''abenecke'')
   \<and> split CHR ''/'' (normpath ''/store/group/uhh/user'') = ['''', ''store''] @ ''group'' # [''uhh'', ''user'']
   \<and> get_dir_user ''/store/group/uhh/user'' = Inr (Some ''uhh'')
   \<and> split CHR ''/'' (normpath ''user/alice/'') = [''user'', ''alice'']
   \<and> get_dir_user ''user/alice/'' = Inr None
   \<and> split CHR ''/'' (normpath ''user/alice/user/bob'') = [] @ ''user'' # [''alice'', ''user'', ''bob'']
   \<and> get_dir_user ''user/alice/user/bob'' = Inr (Some ''alice'')"
proof -
  let ?p1 = "''/pnfs/desy.de/cms/tier2//store/user/abenecke/RunII_102X_v1/''"
  have s1: "split CHR ''/'' (normpath ?p1) =
      ['''', ''pnfs'', ''desy.de'', ''cms'', ''tier2'', ''store''] @ ''user'' # [''abenecke'', ''RunII_102X_v1'']"
    by code_simp
  have i1: "''user'' \<in> set (butlast (tl (split CHR ''/'' (normpath ?p1))))"
    by code_simp
  have r1: "get_dir_user ?p1 = Inr (Some ''abenecke'')"
    using get_dir_user_cases [of ?p1 "['''', ''pnfs'', ''desy.de'', ''cms'', ''tier2'', ''store'']"
        "[''abenecke'', ''RunII_102X_v1'']"] s1 i1 by simp
  let ?p2 = "''/store/group/uhh/user''"
  have s2: "split CHR ''/'' (normpath ?p2) = ['''', ''store''] @ ''group'' # [''uhh'', ''user'']"
    by code_simp
  have i2: "''user'' \<notin> set (butlast (tl (split CHR ''/'' (normpath ?p2))))"
    "''group'' \<in> set (butlast (tl (split CHR ''/'' (normpath ?p2))))"
    by code_simp+
  have r2: "get_dir_user ?p2 = Inr (Some ''uhh'')"
    using get_dir_user_cases [of ?p2 "['''', ''store'']" "[''uhh'', ''user'']"] s2 i2 by simp
  let ?p3 = "''user/alice/''"
  have s3: "split CHR ''/'' (normpath ?p3) = [''user'', ''alice'']"
    by code_simp
  have i3: "''user'' \<notin> set (butlast (tl (split CHR ''/'' (normpath ?p3))))"
    "''group'' \<notin> set (butlast (tl (split CHR ''/'' (normpath ?p3))))"
    by code_simp+
  have r3: "get_dir_user ?p3 = Inr None"
    using get_dir_user_cases [of ?p3] i3 by simp
  let ?p4 = "''user/alice/user/bob''"
  have s4: "split CHR ''/'' (normpath ?p4) = [] @ ''user'' # [''alice'', ''user'', ''bob'']"
    by code_simp
  have i4: "''user'' \<in> set (butlast (tl (split CHR ''/'' (normpath ?p4))))"
    by code_simp
  have r4: "get_dir_user ?p4 = Inr (Some ''alice'')"
    using get_dir_user_cases [of ?p4 "[]" "[''alice'', ''user'', ''bob'']"] s4 i4 by simp
  from s1 r1 s2 r2 s3 r3 s4 r4 show ?thesis by blast
qed

subsection \<open>Listing a set\<close>

lemma listing_singleton:
  assumes "set_listing listing" and "set xs = {a}"
  shows "listing xs = [a]"
proof -
  have s: "set (listing xs) = {a}" and d: "distinct (listing xs)"
    using assms by (auto simp: set_listing_def)
  show ?thesis
  proof (cases "listing xs")
    case Nil
    then show ?thesis using s by simp
  next
    case (Cons y ys)
    then have "y = a" using s by auto
    moreover have "ys = []"
    proof (cases ys)
      case Nil
      then show ?thesis .
    next
      case (Cons z zs)
      then have "z = a" using s \<open>listing xs = y # ys\<close> by auto
      then show ?thesis using d \<open>listing xs = y # ys\<close> \<open>y = a\<close> Cons by simp
    qed
    ultimately show ?thesis using Cons by simp
  qed
qed

lemma set_listing_remdups: "set_listing remdups"
  by (simp add: set_listing_def)

subsection \<open>Files in the CRAB directories of one job\<close>

lemma match_4digits_part:
  assumes "match_4digits s"
  shows "s \<noteq> []" "CHR ''/'' \<notin> set s" "hd s \<noteq> CHR ''/''" "s \<noteq> ''.''" "s \<noteq> ''..''"
    "last s \<noteq> CHR ''/''"
proof -
  from assms have l: "length (take 4 s) = 4" and a: "list_all is_digit (take 4 s)"
    and r: "drop 4 s = [] \<or> drop 4 s = [CHR 0x0A]"
    unfolding match_4digits_def by blast+
  have d: "\<forall>c \<in> set (take 4 s). c \<noteq> CHR ''/''"
    using a by (auto simp: list_all_iff is_digit_def)
  have "CHR ''/'' \<notin> set (drop 4 s)"
    using r by auto
  moreover have "CHR ''/'' \<notin> set (take 4 s)"
    using d by blast
  moreover have "set s = set (take 4 s) \<union> set (drop 4 s)"
    by (metis append_take_drop_id set_append)
  ultimately show ns: "CHR ''/'' \<notin> set s"
    by blast
  show ne: "s \<noteq> []" using l by auto
  show "hd s \<noteq> CHR ''/''" using ns ne by (cases s) auto
  have "last s \<in> set s" using ne by simp
  then show "last s \<noteq> CHR ''/''" using ns by auto
  have "4 \<le> length s" using l by simp
  then show "s \<noteq> ''.''" "s \<noteq> ''..''" by auto
qed



lemma norm_comps_snoc:
  assumes "s \<noteq> []" "s \<noteq> ''.''" "s \<noteq> ''..''" "CHR ''/'' \<notin> set s"
  shows "norm_comps (d @ CHR ''/'' # s) =
     foldl (norm_step (initial_slashes (d @ CHR ''/'' # s))) [] (split CHR ''/'' d) @ [s]"
proof -
  have "norm_step k acc s = acc @ [s]" for k acc
    using assms(1-3) by (simp add: norm_step_def)
  then show ?thesis
    using assms(4) by (simp add: norm_comps_def split_snoc_part)
qed














subsection \<open>Normal forms of paths\<close>

lemma dropWhile_butlast_subset:
  "set (dropWhile P (butlast xs)) \<subseteq> set (dropWhile P xs)"
proof (induction xs)
  case Nil
  then show ?case by simp
next
  case (Cons x xs)
  then show ?case by (cases xs) (auto dest: in_set_butlastD)
qed

lemma dropWhile_all_dotdot:
  assumes "''..'' \<notin> set (dropWhile (\<lambda>x. x = ''..'') acc)" and "acc \<noteq> []" and "last acc = ''..''"
  shows "\<forall>x \<in> set acc. x = ''..''"
proof (rule ccontr)
  assume "\<not> (\<forall>x \<in> set acc. x = ''..'')"
  then have n: "dropWhile (\<lambda>x. x = ''..'') acc \<noteq> []" by simp
  have "dropWhile (\<lambda>x. x = ''..'') acc = drop (length (takeWhile (\<lambda>x. x = ''..'') acc)) acc"
    by (rule dropWhile_eq_drop)
  then have "last (dropWhile (\<lambda>x. x = ''..'') acc) = last acc"
    using n by (metis last_drop drop_eq_Nil not_le)
  then have "''..'' \<in> set (dropWhile (\<lambda>x. x = ''..'') acc)"
    using n assms(3) last_in_set by metis
  then show False using assms(1) by simp
qed

lemma normal_compsI:
  assumes "\<And>x. x \<in> set st \<Longrightarrow> x \<noteq> '''' \<and> x \<noteq> ''.'' \<and> CHR ''/'' \<notin> set x"
    and "''..'' \<notin> set (dropWhile (\<lambda>x. x = ''..'') st)"
    and "0 < k \<Longrightarrow> ''..'' \<notin> set st"
  shows "normal_comps k st"
  unfolding normal_comps_def using assms by blast

lemma normal_compsD:
  assumes "normal_comps k st"
  shows "\<And>x. x \<in> set st \<Longrightarrow> x \<noteq> '''' \<and> x \<noteq> ''.'' \<and> CHR ''/'' \<notin> set x"
    and "''..'' \<notin> set (dropWhile (\<lambda>x. x = ''..'') st)"
    and "0 < k \<Longrightarrow> ''..'' \<notin> set st"
  using assms unfolding normal_comps_def by blast+

lemma normal_comps_Nil: "normal_comps k []"
  by (rule normal_compsI) simp_all

lemma normal_comps_snoc:
  assumes n: "normal_comps k acc"
    and c: "c \<noteq> ''''" "c \<noteq> ''.''" "CHR ''/'' \<notin> set c" "c \<noteq> ''..''"
  shows "normal_comps k (acc @ [c])"
proof (rule normal_compsI)
  fix x assume "x \<in> set (acc @ [c])"
  then have "x \<in> set acc \<or> x = c" by auto
  then show "x \<noteq> '''' \<and> x \<noteq> ''.'' \<and> CHR ''/'' \<notin> set x"
    using normal_compsD(1) [OF n] c(1-3) by blast
next
  have "''..'' \<notin> set (dropWhile (\<lambda>x. x = ''..'') acc)"
    by (rule normal_compsD(2) [OF n])
  then show "''..'' \<notin> set (dropWhile (\<lambda>x. x = ''..'') (acc @ [c]))"
    using c(4) by (simp add: dropWhile_append)
next
  assume "0 < k"
  then have "''..'' \<notin> set acc" by (rule normal_compsD(3) [OF n])
  then show "''..'' \<notin> set (acc @ [c])" using c(4) by simp
qed

lemma normal_comps_dotdots:
  assumes "\<forall>x \<in> set st. x = ''..''"
  shows "normal_comps 0 st"
proof (rule normal_compsI)
  fix x assume "x \<in> set st"
  then have "x = ''..''" using assms by blast
  then show "x \<noteq> '''' \<and> x \<noteq> ''.'' \<and> CHR ''/'' \<notin> set x" by simp
next
  have e: "dropWhile (\<lambda>x. x = ''..'') st = []" using assms by simp
  show "''..'' \<notin> set (dropWhile (\<lambda>x. x = ''..'') st)" unfolding e by simp
next
  assume "(0::nat) < 0"
  then show "''..'' \<notin> set st" by simp
qed

lemma normal_comps_butlast:
  assumes n: "normal_comps k acc"
  shows "normal_comps k (butlast acc)"
proof (rule normal_compsI)
  fix x assume "x \<in> set (butlast acc)"
  then have "x \<in> set acc" by (rule in_set_butlastD)
  then show "x \<noteq> '''' \<and> x \<noteq> ''.'' \<and> CHR ''/'' \<notin> set x"
    by (rule normal_compsD(1) [OF n])
next
  have "set (dropWhile (\<lambda>x. x = ''..'') (butlast acc)) \<subseteq> set (dropWhile (\<lambda>x. x = ''..'') acc)"
    by (rule dropWhile_butlast_subset)
  then show "''..'' \<notin> set (dropWhile (\<lambda>x. x = ''..'') (butlast acc))"
    using normal_compsD(2) [OF n] by (rule contra_subsetD)
next
  assume "0 < k"
  then have "''..'' \<notin> set acc" by (rule normal_compsD(3) [OF n])
  then show "''..'' \<notin> set (butlast acc)" by (meson in_set_butlastD)
qed

lemma normal_comps_step:
  assumes n: "normal_comps k acc" and c: "CHR ''/'' \<notin> set c"
  shows "normal_comps k (norm_step k acc c)"
proof -
  consider (skip) "c = '''' \<or> c = ''.''"
    | (plain) "c \<noteq> ''''" "c \<noteq> ''.''" "c \<noteq> ''..''"
    | (first) "c = ''..''" "k = 0" "acc = []"
    | (more) "c = ''..''" "acc \<noteq> []" "last acc = ''..''"
    | (pop) "c = ''..''" "\<not> (k = 0 \<and> acc = [])" "\<not> (acc \<noteq> [] \<and> last acc = ''..'')"
    by blast
  then show ?thesis
  proof cases
    case skip
    then have "norm_step k acc c = acc" by (auto simp: norm_step_def)
    then show ?thesis using n by simp
  next
    case plain
    then have s: "norm_step k acc c = acc @ [c]" by (simp add: norm_step_def)
    show ?thesis unfolding s using n plain(1,2) c plain(3) by (rule normal_comps_snoc)
  next
    case first
    then have s: "norm_step k acc c = [''..'']" by (simp add: norm_step_def)
    have "normal_comps 0 [''..'']" by (rule normal_comps_dotdots) simp
    then show ?thesis unfolding s using first(2) by simp
  next
    case more
    then have s: "norm_step k acc c = acc @ [''..'']" by (simp add: norm_step_def)
    have all: "\<forall>x \<in> set acc. x = ''..''"
      using normal_compsD(2) [OF n] more(2,3) by (rule dropWhile_all_dotdot)
    have "last acc \<in> set acc" using more(2) by simp
    then have "''..'' \<in> set acc" using more(3) by simp
    then have k0: "k = 0" using normal_compsD(3) [OF n] by blast
    have "normal_comps 0 (acc @ [''..''])"
      by (rule normal_comps_dotdots) (use all in auto)
    then show ?thesis unfolding s using k0 by simp
  next
    case pop
    show ?thesis
    proof (cases "acc = []")
      case True
      then have "norm_step k acc c = []" using pop by (simp add: norm_step_def)
      then show ?thesis by (simp add: normal_comps_Nil)
    next
      case False
      then have s: "norm_step k acc c = butlast acc" using pop by (simp add: norm_step_def)
      show ?thesis unfolding s using n by (rule normal_comps_butlast)
    qed
  qed
qed

lemma normal_comps_foldl:
  assumes "normal_comps k acc" and "\<forall>c \<in> set cs. CHR ''/'' \<notin> set c"
  shows "normal_comps k (foldl (norm_step k) acc cs)"
  using assms by (induction cs arbitrary: acc) (simp_all add: normal_comps_step)

lemma normal_comps_norm_comps: "normal_comps (initial_slashes p) (norm_comps p)"
  unfolding norm_comps_def
proof (rule normal_comps_foldl)
  show "normal_comps (initial_slashes p) []" by (rule normal_comps_Nil)
  show "\<forall>c \<in> set (split CHR ''/'' p). CHR ''/'' \<notin> set c"
    using split_parts_no_sep by blast
qed

lemma norm_step_normal:
  assumes n: "normal_comps k (acc @ c # cs)"
  shows "norm_step k acc c = acc @ [c]"
proof -
  have c: "c \<noteq> '''' \<and> c \<noteq> ''.'' \<and> CHR ''/'' \<notin> set c"
    by (rule normal_compsD(1) [OF n]) simp
  show ?thesis
  proof (cases "c = ''..''")
    case False
    then show ?thesis using c by (simp add: norm_step_def)
  next
    case True
    have "''..'' \<in> set (acc @ c # cs)" using True by simp
    then have k0: "k = 0" using normal_compsD(3) [OF n] by blast
    have all: "\<forall>x \<in> set acc. x = ''..''"
    proof (rule ccontr)
      assume "\<not> (\<forall>x \<in> set acc. x = ''..'')"
      then obtain x where "x \<in> set acc" "x \<noteq> ''..''" by blast
      then have "dropWhile (\<lambda>x. x = ''..'') (acc @ c # cs) =
          dropWhile (\<lambda>x. x = ''..'') acc @ c # cs"
        by (rule dropWhile_append1)
      then have "''..'' \<in> set (dropWhile (\<lambda>x. x = ''..'') (acc @ c # cs))"
        using True by simp
      then show False using normal_compsD(2) [OF n] by blast
    qed
    have "acc = [] \<or> (acc \<noteq> [] \<and> last acc = ''..'')"
      using all last_in_set by blast
    then show ?thesis using True k0 by (auto simp: norm_step_def)
  qed
qed

lemma foldl_norm_step_normal:
  "normal_comps k (acc @ cs) \<Longrightarrow> foldl (norm_step k) acc cs = acc @ cs"
proof (induction cs arbitrary: acc)
  case Nil
  then show ?case by simp
next
  case (Cons c cs)
  have s: "norm_step k acc c = acc @ [c]"
    using Cons.prems by (rule norm_step_normal)
  have "normal_comps k ((acc @ [c]) @ cs)" using Cons.prems by simp
  then have "foldl (norm_step k) (acc @ [c]) cs = (acc @ [c]) @ cs"
    by (rule Cons.IH)
  then show ?case using s by simp
qed

lemma foldl_norm_step_empties:
  "foldl (norm_step k) acc (replicate j [] @ cs) = foldl (norm_step k) acc cs"
  by (induction j) (simp_all add: norm_step_def)

lemma join_Cons_nonempty: "xs \<noteq> [] \<Longrightarrow> join sep (x # xs) = x @ sep @ join sep xs"
  by (cases xs) simp_all

lemma join_empties:
  "xs \<noteq> [] \<Longrightarrow> join ''/'' (replicate j [] @ xs) = replicate j CHR ''/'' @ join ''/'' xs"
proof (induction j)
  case 0
  then show ?case by simp
next
  case (Suc j)
  have "replicate j [] @ xs \<noteq> []" using Suc.prems by simp
  then have "join ''/'' ([] # (replicate j [] @ xs)) = [] @ ''/'' @ join ''/'' (replicate j [] @ xs)"
    by (rule join_Cons_nonempty)
  then show ?case using Suc by simp
qed

lemma join_only_empties: "join ''/'' (replicate (Suc j) []) = replicate j CHR ''/''"
proof (induction j)
  case 0
  then show ?case by simp
next
  case (Suc j)
  have "join ''/'' ([] # replicate (Suc j) []) = [] @ ''/'' @ join ''/'' (replicate (Suc j) [])"
    by (rule join_Cons_nonempty) simp
  then show ?case using Suc by simp
qed

lemma join_head:
  assumes "st \<noteq> []" and "hd st \<noteq> []"
  shows "join sep st \<noteq> [] \<and> hd (join sep st) = hd (hd st)"
proof (cases st)
  case Nil
  then show ?thesis using assms by simp
next
  case (Cons x xs)
  then show ?thesis using assms by (cases xs) auto
qed

lemma initial_slashes_replicate:
  assumes "k \<le> 2" and "j = [] \<or> hd j \<noteq> CHR ''/''"
  shows "initial_slashes (replicate k CHR ''/'' @ j) = k"
proof -
  consider "k = 0" | "k = 1" | "k = 2" using assms(1) by linarith
  then show ?thesis
  proof cases
    case 1
    then show ?thesis using assms(2) by (cases j) (auto simp: initial_slashes_def startswith_def)
  next
    case 2
    then show ?thesis using assms(2) by (cases j) (auto simp: initial_slashes_def startswith_def)
  next
    case 3
    then have r: "replicate k CHR ''/'' = ''//''" by (simp add: numeral_2_eq_2)
    show ?thesis unfolding r using assms(2) 3
      by (cases j) (auto simp: initial_slashes_def startswith_def)
  qed
qed

lemma initial_slashes_le: "initial_slashes p \<le> 2"
  by (simp add: initial_slashes_def)

lemma normal_comps_join_head:
  assumes "normal_comps k st"
  shows "join ''/'' st = [] \<or> hd (join ''/'' st) \<noteq> CHR ''/''"
proof (cases st)
  case Nil
  then show ?thesis by simp
next
  case (Cons x xs)
  have x: "x \<noteq> [] \<and> x \<noteq> ''.'' \<and> CHR ''/'' \<notin> set x"
    by (rule normal_compsD(1) [OF assms]) (simp add: Cons)
  then have "hd x \<noteq> CHR ''/''" by (cases x) auto
  moreover have "hd (join ''/'' st) = hd (hd st)"
    using join_head [of st "''/''"] x Cons by simp
  ultimately show ?thesis using Cons by simp
qed

lemma normpath_normal:
  assumes n: "normal_comps k st" and k: "k \<le> 2" and ne: "0 < k \<or> st \<noteq> []"
  shows "normpath (replicate k CHR ''/'' @ join ''/'' st) = replicate k CHR ''/'' @ join ''/'' st"
proof -
  define q where "q = replicate k CHR ''/'' @ join ''/'' st"
  have i: "initial_slashes q = k"
    unfolding q_def using k normal_comps_join_head [OF n] by (rule initial_slashes_replicate)
  have nosep: "\<forall>x \<in> set st. CHR ''/'' \<notin> set x"
    using normal_compsD(1) [OF n] by blast
  have sp: "split CHR ''/'' q = replicate k [] @ (if st = [] then [[]] else st)"
    unfolding q_def by (rule split_slashes_join [OF nosep])
  have c: "norm_comps q = st"
  proof (cases "st = []")
    case True
    then show ?thesis
      unfolding norm_comps_def i sp foldl_norm_step_empties by (simp add: norm_step_def)
  next
    case False
    have "foldl (norm_step k) [] st = [] @ st"
      by (rule foldl_norm_step_normal) (simp add: n)
    then show ?thesis
      unfolding norm_comps_def i sp foldl_norm_step_empties using False by simp
  qed
  have qne: "q \<noteq> []"
  proof (cases "0 < k")
    case True
    then show ?thesis unfolding q_def by auto
  next
    case False
    then have "st \<noteq> []" using ne by blast
    moreover have "[] \<notin> set st" using normal_compsD(1) [OF n] by blast
    ultimately have "join ''/'' st \<noteq> []" using join_eq_Nil by blast
    then show ?thesis unfolding q_def by simp
  qed
  have "normpath q = replicate k CHR ''/'' @ join ''/'' st"
    using qne ne by (simp add: normpath_eq i c)
  then show ?thesis unfolding q_def .
qed

lemma normpath_dot: "normpath ''.'' = ''.''"
  by code_simp

lemma normpath_idem: "normpath (normpath p) = normpath p"
proof (cases "p = [] \<or> (initial_slashes p = 0 \<and> norm_comps p = [])")
  case True
  then have "normpath p = ''.''" by (simp add: normpath_eq)
  then show ?thesis by (simp add: normpath_dot)
next
  case False
  then have e: "normpath p = replicate (initial_slashes p) CHR ''/'' @ join ''/'' (norm_comps p)"
    by (simp add: normpath_eq)
  have "0 < initial_slashes p \<or> norm_comps p \<noteq> []" using False by auto
  with normal_comps_norm_comps initial_slashes_le
  have "normpath (replicate (initial_slashes p) CHR ''/'' @ join ''/'' (norm_comps p)) =
      replicate (initial_slashes p) CHR ''/'' @ join ''/'' (norm_comps p)"
    by (rule normpath_normal)
  then show ?thesis unfolding e .
qed

lemma normalize_dir_normal:
  assumes "normalize_dir d \<noteq> []"
  shows "normpath (normalize_dir d) = normalize_dir d"
proof (cases "match_4digits (last (split CHR ''/'' (normpath d)))")
  case False
  then have "normalize_dir d = normpath d"
    by (simp add: normalize_dir_def remove_crab_dir_def)
  then show ?thesis by (simp add: normpath_idem)
next
  case True
  define k where "k = initial_slashes d"
  define st where "st = norm_comps d"
  have r: "normalize_dir d = join ''/'' (butlast (split CHR ''/'' (normpath d)))"
    using True by (simp add: normalize_dir_def remove_crab_dir_def)
  have nd: "\<not> match_4digits ''.''" by code_simp
  have ne: "\<not> match_4digits []" by code_simp
  have notdot: "\<not> (d = [] \<or> (k = 0 \<and> st = []))"
  proof
    assume "d = [] \<or> (k = 0 \<and> st = [])"
    then have "split CHR ''/'' (normpath d) = [''.'']"
      by (simp add: split_normpath k_def st_def)
    then show False using True nd by simp
  qed
  then have sp: "split CHR ''/'' (normpath d) = replicate k [] @ (if st = [] then [[]] else st)"
    by (simp add: split_normpath k_def st_def)
  have stne: "st \<noteq> []"
  proof
    assume "st = []"
    then have "last (split CHR ''/'' (normpath d)) = []"
      unfolding sp by simp
    then show False using True ne by simp
  qed
  then have b: "butlast (split CHR ''/'' (normpath d)) = replicate k [] @ butlast st"
    unfolding sp by (simp add: butlast_append)
  have n: "normal_comps k (butlast st)"
    unfolding k_def st_def using normal_comps_norm_comps by (rule normal_comps_butlast)
  have k2: "k \<le> 2" unfolding k_def by (rule initial_slashes_le)
  show ?thesis
  proof (cases "butlast st = []")
    case False
    then have e: "normalize_dir d = replicate k CHR ''/'' @ join ''/'' (butlast st)"
      unfolding r b by (rule join_empties)
    have "0 < k \<or> butlast st \<noteq> []" using False by simp
    with n k2 show ?thesis unfolding e by (rule normpath_normal)
  next
    case bl: True
    then have e: "normalize_dir d = join ''/'' (replicate k [])"
      unfolding r b by simp
    show ?thesis
    proof (cases k)
      case 0
      then have "normalize_dir d = []" unfolding e by simp
      then show ?thesis using assms by simp
    next
      case (Suc j)
      then have rj: "normalize_dir d = replicate j CHR ''/''"
        unfolding e by (simp only: join_only_empties)
      then have "j \<noteq> 0" using assms by auto
      then have "j = 1" using k2 Suc by simp
      then have "normalize_dir d = ''/''" using rj by simp
      moreover have "normpath ''/'' = ''/''" by code_simp
      ultimately show ?thesis by simp
    qed
  qed
qed

lemma normalize_dir_fixed:
  assumes "normpath p = p" and "\<not> match_4digits (last (split CHR ''/'' p))"
  shows "normalize_dir p = p"
  using assms by (simp add: normalize_dir_def remove_crab_dir_def)

lemma normalize_dir_parent:
  assumes "normpath (d @ ''/'' @ s) = d @ ''/'' @ s" and "match_4digits s"
  shows "normalize_dir (d @ ''/'' @ s) = d"
proof -
  have "split CHR ''/'' (d @ CHR ''/'' # s) = split CHR ''/'' d @ [s]"
    using match_4digits_part(2) [OF assms(2)] by (rule split_snoc_part)
  then have "remove_crab_dir (d @ CHR ''/'' # s) = join ''/'' (split CHR ''/'' d)"
    using assms(2) by (simp add: remove_crab_dir_def)
  then have "remove_crab_dir (d @ CHR ''/'' # s) = d"
    using join_split [of "CHR ''/''" d] by simp
  then show ?thesis
    using assms(1) by (simp add: normalize_dir_def)
qed

subsection \<open>Normalising a directory\<close>

text \<open>
  C1, as claimed: normalising twice would be the same as normalising once.  Only one
  final four-digit directory is removed, so a directory two CRAB levels deep is
  normalised to a path that is normalised further; and with the directory component
  taken again, the second pass drops one more segment.
\<close>

theorem normalize_dir_twice_counterexample:
  "normalize_dir ''/store/user/alice/job/0000/0001'' = ''/store/user/alice/job/0000''
   \<and> normalize_dir (normalize_dir ''/store/user/alice/job/0000/0001'') = ''/store/user/alice/job''
   \<and> ntuple_dir_name ''/store/user/alice/job/f.root'' = ''/store/user/alice/job''
   \<and> ntuple_dir_name (ntuple_dir_name ''/store/user/alice/job/f.root'') = ''/store/user/alice''
   \<and> normalize_dir (normalize_dir ''/store/user/alice/job/0000/0001'') \<noteq>
       normalize_dir ''/store/user/alice/job/0000/0001''
   \<and> ntuple_dir_name (ntuple_dir_name ''/store/user/alice/job/f.root'') \<noteq>
       ntuple_dir_name ''/store/user/alice/job/f.root''"
  by code_simp

text \<open>
  C1, amended: the directory name of a referenced file is the normalisation of its
  directory component.  Normalising a directory twice is the same as normalising it
  once whenever the result of the first pass is not empty and does not itself end in
  a segment of four digits.  A separator-normalised path \<open>d/s\<close> whose last segment
  \<open>s\<close> matches the four-digit pattern is normalised to \<open>d\<close>, and a
  separator-normalised path whose last segment does not match is unchanged.
\<close>

theorem normalize_dir_idempotent:
  "(normalize_dir p \<noteq> '''' \<and> \<not> match_4digits (last (split CHR ''/'' (normalize_dir p)))
      \<longrightarrow> normalize_dir (normalize_dir p) = normalize_dir p)
   \<and> (normpath (d @ ''/'' @ s) = d @ ''/'' @ s \<and> match_4digits s
      \<longrightarrow> normalize_dir (d @ ''/'' @ s) = d)
   \<and> (normpath p = p \<and> \<not> match_4digits (last (split CHR ''/'' p))
      \<longrightarrow> normalize_dir p = p)
   \<and> ntuple_dir_name f = normalize_dir (dirname f)"
proof (intro conjI impI)
  assume a: "normalize_dir p \<noteq> '''' \<and>
    \<not> match_4digits (last (split CHR ''/'' (normalize_dir p)))"
  then have "normpath (normalize_dir p) = normalize_dir p"
    using normalize_dir_normal by blast
  then show "normalize_dir (normalize_dir p) = normalize_dir p"
    using a by (rule normalize_dir_fixed [OF _ conjunct2])
next
  assume "normpath (d @ ''/'' @ s) = d @ ''/'' @ s \<and> match_4digits s"
  then show "normalize_dir (d @ ''/'' @ s) = d"
    using normalize_dir_parent by blast
next
  assume "normpath p = p \<and> \<not> match_4digits (last (split CHR ''/'' p))"
  then show "normalize_dir p = p"
    using normalize_dir_fixed by blast
next
  show "ntuple_dir_name f = normalize_dir (dirname f)"
    by (simp add: ntuple_dir_name_def)
qed

theorem normalize_dir_idempotent_witness:
  "normalize_dir ''/store//user/alice/job/0000/'' = ''/store/user/alice/job''
   \<and> normalize_dir ''/store//user/alice/job/0000/'' \<noteq> ''''
   \<and> \<not> match_4digits (last (split CHR ''/'' (normalize_dir ''/store//user/alice/job/0000/'')))
   \<and> normalize_dir (normalize_dir ''/store//user/alice/job/0000/'') =
       normalize_dir ''/store//user/alice/job/0000/''
   \<and> normpath (''/store/user/alice/job'' @ ''/'' @ ''0000'') =
       ''/store/user/alice/job'' @ ''/'' @ ''0000''
   \<and> match_4digits ''0000''
   \<and> normalize_dir (''/store/user/alice/job'' @ ''/'' @ ''0000'') = ''/store/user/alice/job''
   \<and> normpath ''/store/user/alice/job'' = ''/store/user/alice/job''
   \<and> \<not> match_4digits (last (split CHR ''/'' ''/store/user/alice/job''))
   \<and> normalize_dir ''/store/user/alice/job'' = ''/store/user/alice/job''
   \<and> ntuple_dir_name ''/store/user/alice/job/0000/f1.root'' =
       normalize_dir (dirname ''/store/user/alice/job/0000/f1.root'')"
proof -
  let ?p = "''/store//user/alice/job/0000/''"
  let ?d = "''/store/user/alice/job''"
  note t = normalize_dir_idempotent
  have v: "normalize_dir ?p = ?d" by code_simp
  have a1: "normalize_dir ?p \<noteq> ''''" by code_simp
  have a2: "\<not> match_4digits (last (split CHR ''/'' (normalize_dir ?p)))" by code_simp
  have r1: "normalize_dir (normalize_dir ?p) = normalize_dir ?p"
    using t [of ?p] a1 a2 by blast
  have b1: "normpath (?d @ ''/'' @ ''0000'') = ?d @ ''/'' @ ''0000''" by code_simp
  have b2: "match_4digits ''0000''" by code_simp
  have r2: "normalize_dir (?d @ ''/'' @ ''0000'') = ?d"
    using t [of _ ?d "''0000''"] b1 b2 by blast
  have c1: "normpath ?d = ?d" by code_simp
  have c2: "\<not> match_4digits (last (split CHR ''/'' ?d))" by code_simp
  have r3: "normalize_dir ?d = ?d"
    using t [of ?d] c1 c2 by blast
  have r4: "ntuple_dir_name ''/store/user/alice/job/0000/f1.root'' =
       normalize_dir (dirname ''/store/user/alice/job/0000/f1.root'')"
    using t [of _ _ _ "''/store/user/alice/job/0000/f1.root''"] by blast
  from v a1 a2 r1 b1 b2 r2 c1 c2 r3 r4 show ?thesis by blast
qed

subsection \<open>The path of a descriptor relative to the scan root\<close>

lemma norm_step_pos: "0 < k \<Longrightarrow> 0 < k' \<Longrightarrow> norm_step k acc c = norm_step k' acc c"
  by (simp add: norm_step_def)

lemma foldl_norm_step_pos:
  "0 < k \<Longrightarrow> 0 < k' \<Longrightarrow> foldl (norm_step k) acc cs = foldl (norm_step k') acc cs"
  by (induction cs arbitrary: acc) (simp_all add: norm_step_pos [of k k'])

lemma abs_comps:
  assumes "startswith p ''/''"
  shows "filter (\<lambda>x. x \<noteq> []) (split CHR ''/'' (normpath p)) = norm_comps p"
proof -
  obtain t where p: "p = CHR ''/'' # t"
    using assms by (auto simp: startswith_iff)
  then have k: "0 < initial_slashes p" by (simp add: initial_slashes_pos)
  have "[] \<notin> set (norm_comps p)" by (rule norm_comps_no_empty)
  then have f: "filter (\<lambda>x. x \<noteq> []) (norm_comps p) = norm_comps p"
    by (simp add: filter_id_conv) metis
  have "split CHR ''/'' (normpath p) =
      replicate (initial_slashes p) [] @ (if norm_comps p = [] then [[]] else norm_comps p)"
    using p k by (simp add: split_normpath)
  then show ?thesis using f by simp
qed

lemma norm_comps_file:
  assumes w: "startswith w ''/''"
    and f: "f \<noteq> []" "f \<noteq> ''.''" "f \<noteq> ''..''" "CHR ''/'' \<notin> set f"
  shows "norm_comps (w @ CHR ''/'' # f) = norm_comps w @ [f]"
proof -
  obtain t where wt: "w = CHR ''/'' # t"
    using w by (auto simp: startswith_iff)
  have k: "0 < initial_slashes w" "0 < initial_slashes (w @ CHR ''/'' # f)"
    using wt by (simp_all add: initial_slashes_pos)
  have "norm_comps (w @ CHR ''/'' # f) =
      foldl (norm_step (initial_slashes (w @ CHR ''/'' # f))) [] (split CHR ''/'' w) @ [f]"
    using f by (rule norm_comps_snoc)
  also have "foldl (norm_step (initial_slashes (w @ CHR ''/'' # f))) [] (split CHR ''/'' w) =
      norm_comps w"
    unfolding norm_comps_def using k(2,1) by (rule foldl_norm_step_pos)
  finally show ?thesis .
qed

lemma norm_comps_trailing:
  assumes "startswith w ''/''"
  shows "norm_comps (w @ ''/'') = norm_comps w"
proof -
  obtain t where wt: "w = CHR ''/'' # t"
    using assms by (auto simp: startswith_iff)
  have k: "0 < initial_slashes w" "0 < initial_slashes (w @ ''/'')"
    using wt by (simp_all add: initial_slashes_pos)
  have "split CHR ''/'' (w @ ''/'') = split CHR ''/'' w @ [[]]"
    using split_append_sep [of "CHR ''/''" w "[]"] by simp
  then have "norm_comps (w @ ''/'') =
      foldl (norm_step (initial_slashes (w @ ''/''))) [] (split CHR ''/'' w)"
    by (simp add: norm_comps_def norm_step_def)
  also have "\<dots> = norm_comps w"
    unfolding norm_comps_def using k(2,1) by (rule foldl_norm_step_pos)
  finally show ?thesis .
qed

lemma commonprefix_append: "commonprefix xs (xs @ ys) = xs"
  by (induction xs) simp_all

lemma endswith_iff: "endswith s suf \<longleftrightarrow> (\<exists>t. s = t @ suf)"
proof
  assume "endswith s suf"
  then have "s = take (length s - length suf) s @ suf"
    unfolding endswith_def by (metis append_take_drop_id)
  then show "\<exists>t. s = t @ suf" by blast
next
  assume "\<exists>t. s = t @ suf"
  then show "endswith s suf" by (auto simp: endswith_def)
qed

lemma startswith_slash: "startswith s ''/'' \<longleftrightarrow> (s \<noteq> [] \<and> hd s = CHR ''/'')"
  by (cases s) (auto simp: startswith_def)

lemma norm_comps_dir_file:
  assumes w: "startswith w ''/''"
    and f: "f \<noteq> []" "f \<noteq> ''.''" "f \<noteq> ''..''" "CHR ''/'' \<notin> set f"
    and y: "(y = w @ f \<and> endswith w ''/'') \<or> y = w @ ''/'' @ f"
  shows "startswith y ''/'' \<and> norm_comps y = norm_comps w @ [f]"
proof -
  from y consider (slash) w' where "w = w' @ ''/''" "y = w' @ ''/'' @ f"
    | (plain) "y = w @ ''/'' @ f"
    by (auto simp: endswith_iff)
  then show ?thesis
  proof cases
    case plain
    then have "norm_comps y = norm_comps w @ [f]"
      using norm_comps_file [OF w f] by simp
    moreover have "startswith y ''/''"
      using w plain by (auto simp: startswith_slash)
    ultimately show ?thesis by blast
  next
    case slash
    show ?thesis
    proof (cases "w' = []")
      case True
      then have yw: "y = CHR ''/'' # f" "w = ''/''" using slash by simp_all
      have "norm_comps ([] @ CHR ''/'' # f) =
          foldl (norm_step (initial_slashes ([] @ CHR ''/'' # f))) [] (split CHR ''/'' []) @ [f]"
        using f by (rule norm_comps_snoc)
      then have "norm_comps y = [f]"
        unfolding yw by (simp add: norm_step_def)
      moreover have "norm_comps ''/'' = []" by code_simp
      moreover have "startswith y ''/''" unfolding yw by (simp add: startswith_def)
      ultimately show ?thesis using yw(2) by simp
    next
      case False
      then have w': "startswith w' ''/''"
        using w slash(1) by (cases w') (auto simp: startswith_def)
      have "norm_comps y = norm_comps w' @ [f]"
        using norm_comps_file [OF w' f] slash(2) by simp
      moreover have "norm_comps w = norm_comps w'"
        unfolding slash(1) using w' by (rule norm_comps_trailing)
      moreover have "startswith y ''/''"
        using w' slash(2) by (auto simp: startswith_slash)
      ultimately show ?thesis by simp
    qed
  qed
qed

lemma path_join_file:
  assumes "f \<noteq> []" "CHR ''/'' \<notin> set f"
  shows "path_join a f = (if a = [] \<or> endswith a ''/'' then a @ f else a @ ''/'' @ f)"
proof -
  have "\<not> startswith f ''/''"
    using assms by (cases f) (auto simp: startswith_def)
  then show ?thesis by (simp add: path_join_def)
qed

lemma absolute_dir_file:
  fixes tdir cwd f :: string
  assumes c: "startswith cwd ''/''"
    and f: "f \<noteq> []" "CHR ''/'' \<notin> set f"
  defines "w \<equiv> (if startswith tdir ''/'' then tdir else path_join cwd tdir)"
    and "y \<equiv> (if startswith (path_join tdir f) ''/'' then path_join tdir f
               else path_join cwd (path_join tdir f))"
  shows "startswith w ''/'' \<and> ((y = w @ f \<and> endswith w ''/'') \<or> y = w @ ''/'' @ f)"
proof (cases "startswith tdir ''/''")
  case True
  then have w: "w = tdir" by (simp add: w_def)
  have pj: "path_join tdir f = (if endswith tdir ''/'' then tdir @ f else tdir @ ''/'' @ f)"
    using True by (auto simp: path_join_file [OF f] startswith_slash)
  have "startswith (path_join tdir f) ''/''"
    using True unfolding pj by (auto simp: startswith_slash)
  then have "y = path_join tdir f" by (simp add: y_def)
  then show ?thesis using True w pj by auto
next
  case False
  have cne: "cwd \<noteq> []" using c by (auto simp: startswith_slash)
  define C where "C = (if endswith cwd ''/'' then cwd else cwd @ ''/'')"
  have Cs: "startswith C ''/''" "endswith C ''/''"
    using c cne by (auto simp: C_def startswith_slash endswith_iff)
  have j: "path_join cwd q = C @ q" if "\<not> startswith q ''/''" for q
    using that cne by (simp add: path_join_def C_def)
  have w: "w = C @ tdir" using False by (simp add: w_def j)
  have pj: "path_join tdir f = (if tdir = [] \<or> endswith tdir ''/'' then tdir @ f else tdir @ ''/'' @ f)"
    by (rule path_join_file [OF f])
  have nf: "\<not> startswith f ''/''"
    using f by (cases f) (auto simp: startswith_def)
  have "\<not> startswith (path_join tdir f) ''/''"
    using False nf unfolding pj by (cases tdir) (auto simp: startswith_def)
  then have y: "y = C @ path_join tdir f" by (simp add: y_def j)
  have ws: "startswith w ''/''"
    using Cs(1) unfolding w by (auto simp: startswith_slash)
  show ?thesis
  proof (cases "tdir = [] \<or> endswith tdir ''/''")
    case True
    then have "y = w @ f" using y w pj by simp
    moreover have "endswith w ''/''"
      using True Cs(2) unfolding w by (auto simp: endswith_iff)
    ultimately show ?thesis using ws by blast
  next
    case False
    then have "y = w @ ''/'' @ f" using y w pj by simp
    then show ?thesis using ws by blast
  qed
qed

lemma relpath_file:
  assumes c: "startswith cwd ''/''"
    and f: "f \<noteq> []" "f \<noteq> ''.''" "f \<noteq> ''..''" "CHR ''/'' \<notin> set f"
  shows "relpath cwd (path_join tdir f) tdir = f"
proof -
  define w where "w = (if startswith tdir ''/'' then tdir else path_join cwd tdir)"
  define y where "y = (if startswith (path_join tdir f) ''/'' then path_join tdir f
               else path_join cwd (path_join tdir f))"
  from absolute_dir_file [OF c f(1,4), of tdir]
  have wy: "startswith w ''/''" "(y = w @ f \<and> endswith w ''/'') \<or> y = w @ ''/'' @ f"
    unfolding w_def y_def by blast+
  from norm_comps_dir_file [OF wy(1) f wy(2)]
  have ys: "startswith y ''/''" and yc: "norm_comps y = norm_comps w @ [f]"
    by blast+
  have s: "filter (\<lambda>x. x \<noteq> []) (split CHR ''/'' (abspath cwd tdir)) = norm_comps w"
    unfolding abspath_def w_def [symmetric] using wy(1) by (rule abs_comps)
  have p: "filter (\<lambda>x. x \<noteq> []) (split CHR ''/'' (abspath cwd (path_join tdir f))) =
      norm_comps w @ [f]"
    unfolding abspath_def y_def [symmetric] using abs_comps [OF ys] yc by simp
  show ?thesis
    unfolding relpath_def Let_def s p commonprefix_append by simp
qed

subsection \<open>A scan root with one descriptor\<close>

lemma a_xml_data:
  "get_xml_data g ''a.xml'' = Inr \<lparr>filepath = ''a.xml'', year = '''', branch = '''', git_src = g\<rparr>"
proof -
  have "get_year_from_path (normpath ''a.xml'') = Inr None" by code_simp
  moreover have "get_branch_from_path (normpath ''a.xml'') = None" by code_simp
  ultimately show ?thesis by (simp add: get_xml_data_def)
qed

lemma nested_xml_data:
  "get_xml_data g ''RunII_102X_v1/2017v2/a.xml'' =
     Inr \<lparr>filepath = ''RunII_102X_v1/2017v2/a.xml'', year = ''2017v2'',
          branch = ''RunII_102X_v1'', git_src = g\<rparr>"
proof -
  have "get_year_from_path (normpath ''RunII_102X_v1/2017v2/a.xml'') = Inr (Some ''2017v2'')"
    by code_simp
  moreover have "get_branch_from_path (normpath ''RunII_102X_v1/2017v2/a.xml'') =
      Some ''RunII_102X_v1''"
    by code_simp
  ultimately show ?thesis by (simp add: get_xml_data_def)
qed

lemma scenario_filenames:
  assumes "startswith (getcwd env) ''/''"
    and "walk env top_dir = [(top_dir, files)]"
    and "filter (\<lambda>filename. splitext_ext filename = ''.xml'') files = [''a.xml'']"
  shows "get_xml_filenames env top_dir = [''a.xml'']"
proof -
  have "relpath (getcwd env) (path_join top_dir ''a.xml'') top_dir = ''a.xml''"
    using assms(1) by (rule relpath_file) simp_all
  then show ?thesis using assms(2,3) by (simp add: get_xml_filenames_def)
qed

lemma scenario_dirs:
  assumes "set_listing listing"
    and "get_ntuple_filenames_from_xml env (path_join top_dir ''a.xml'') =
      [''RunII_102X_v1/2017v2/store/user/alice/job/0000/f1.root'',
       ''RunII_102X_v1/2017v2/store/user/alice/job/0001/f2.root'']"
  shows "get_ntuple_dirs_from_xml env listing (path_join top_dir ''a.xml'') =
      [''RunII_102X_v1/2017v2/store/user/alice/job'']"
proof -
  have n1: "ntuple_dir_name ''RunII_102X_v1/2017v2/store/user/alice/job/0000/f1.root'' =
      ''RunII_102X_v1/2017v2/store/user/alice/job''" by code_simp
  have n2: "ntuple_dir_name ''RunII_102X_v1/2017v2/store/user/alice/job/0001/f2.root'' =
      ''RunII_102X_v1/2017v2/store/user/alice/job''" by code_simp
  show ?thesis
    unfolding get_ntuple_dirs_from_xml_def assms(2)
    by (rule listing_singleton [OF assms(1)]) (simp add: n1 n2)
qed

lemma job_dir_data:
  assumes "isdir env ''RunII_102X_v1/2017v2/store/user/alice/job''
      \<longrightarrow> lstat env ''RunII_102X_v1/2017v2/store/user/alice/job'' \<noteq> None"
  shows "\<exists>d. get_ntuple_dir_data env ''RunII_102X_v1/2017v2/store/user/alice/job'' = Inr d
     \<and> ntuple_dir d = ''RunII_102X_v1/2017v2/store/user/alice/job''
     \<and> user d = Some ''alice''"
proof -
  have "get_dir_user ''RunII_102X_v1/2017v2/store/user/alice/job'' = Inr (Some ''alice'')"
    by code_simp
  then show ?thesis
    using assms
    by (auto simp: get_ntuple_dir_data_def get_creation_time_def split: option.splits)
qed

text \<open>
  C2, as claimed: the row of the descriptor table would have the branch
  \<^verbatim>\<open>RunII_102X_v1\<close> and the year \<^verbatim>\<open>2017v2\<close>.  Branch and year are read from the path
  of the descriptor relative to the scan root, which is \<^verbatim>\<open>a.xml\<close>, not from the files
  it references: both are empty.
\<close>

theorem scan_scenario_counterexample:
  "fst (snd (fst (create_tables example_env remdups ''UHH2-datasets'' ''master'' ''datasets'' False))) =
     [\<lparr>filepath = ''a.xml'', year = '''', branch = '''', git_src = ''UHH2-datasets/master''\<rparr>]"
  by code_simp

text \<open>
  C2, amended: for a scan root that holds the one descriptor \<^verbatim>\<open>a.xml\<close>, from which the
  two file names \<^verbatim>\<open>RunII_102X_v1/2017v2/store/user/alice/job/0000/f1.root\<close> and
  \<^verbatim>\<open>.../job/0001/f2.root\<close> are extracted, \<^verbatim>\<open>create_tables\<close> raises nothing and fills the
  descriptor table with exactly one row, of file path \<^verbatim>\<open>a.xml\<close> and empty branch and
  year, and the directory table with exactly one row, whose directory is
  \<^verbatim>\<open>RunII_102X_v1/2017v2/store/user/alice/job\<close>, whose user is \<^verbatim>\<open>alice\<close> and whose
  descriptor is \<^verbatim>\<open>a.xml\<close>.  The branch \<^verbatim>\<open>RunII_102X_v1\<close> and the year \<^verbatim>\<open>2017v2\<close> are
  those of a descriptor at \<^verbatim>\<open>RunII_102X_v1/2017v2/a.xml\<close>.
\<close>

theorem scan_scenario:
  assumes l: "set_listing listing"
    and d: "isdir env top_dir"
    and c: "startswith (getcwd env) ''/''"
    and w: "walk env top_dir = [(top_dir, files)]"
    and x: "filter (\<lambda>filename. splitext_ext filename = ''.xml'') files = [''a.xml'']"
    and r: "get_ntuple_filenames_from_xml env (path_join top_dir ''a.xml'') =
      [''RunII_102X_v1/2017v2/store/user/alice/job/0000/f1.root'',
       ''RunII_102X_v1/2017v2/store/user/alice/job/0001/f2.root'']"
    and s: "isdir env ''RunII_102X_v1/2017v2/store/user/alice/job''
      \<longrightarrow> lstat env ''RunII_102X_v1/2017v2/store/user/alice/job'' \<noteq> None"
  shows "(\<exists>qa qb row.
     create_tables env listing repo_name git_branch top_dir appnd =
       ((qa, [\<lparr>filepath = ''a.xml'', year = '''', branch = '''',
               git_src = repo_name @ ''/'' @ git_branch\<rparr>], None),
        Some (qb, [row], None))
     \<and> ntuple_dir row = ''RunII_102X_v1/2017v2/store/user/alice/job''
     \<and> endswith (ntuple_dir row) ''/job''
     \<and> user row = Some ''alice''
     \<and> xml_filepath row = ''a.xml'')
   \<and> get_xml_data (repo_name @ ''/'' @ git_branch) ''RunII_102X_v1/2017v2/a.xml'' =
       Inr \<lparr>filepath = ''RunII_102X_v1/2017v2/a.xml'', year = ''2017v2'',
            branch = ''RunII_102X_v1'', git_src = repo_name @ ''/'' @ git_branch\<rparr>"
proof -
  have f: "get_xml_filenames env top_dir = [''a.xml'']"
    using c w x by (rule scenario_filenames)
  have a: "xml_file_data env top_dir g =
      ([\<lparr>filepath = ''a.xml'', year = '''', branch = '''', git_src = g\<rparr>], None)" for g
    by (simp add: xml_file_data_def f a_xml_data)
  from job_dir_data [OF s] obtain dd
    where dd: "get_ntuple_dir_data env ''RunII_102X_v1/2017v2/store/user/alice/job'' = Inr dd"
      "ntuple_dir dd = ''RunII_102X_v1/2017v2/store/user/alice/job''"
      "user dd = Some ''alice''"
    by blast
  have b: "xml_ntuple_dir_data env listing top_dir = ([add_xml_filepath dd ''a.xml''], None)"
    by (simp add: xml_ntuple_dir_data_def f scenario_dirs [OF l r] ntuple_dir_row_def dd(1))
  have e: "endswith ''RunII_102X_v1/2017v2/store/user/alice/job'' ''/job''"
    by code_simp
  define qa where "qa = executed (if \<not> appnd
      then create_table \<lparr>table_name = ''xml'', executed = []\<rparr> xml_table_fields
      else \<lparr>table_name = ''xml'', executed = []\<rparr>)"
  define qb where "qb = executed (if \<not> appnd
      then create_table \<lparr>table_name = ''xml_ntuple_dir'', executed = []\<rparr>
             xml_ntuple_dir_table_fields
      else \<lparr>table_name = ''xml_ntuple_dir'', executed = []\<rparr>)"
  have ta: "create_xml_table env repo_name git_branch top_dir appnd =
      (qa, [\<lparr>filepath = ''a.xml'', year = '''', branch = '''',
               git_src = repo_name @ ''/'' @ git_branch\<rparr>], None)"
    using d by (simp add: create_xml_table_def Let_def a qa_def)
  have tb: "create_xml_ntuple_dir_table env listing top_dir appnd =
      (qb, [add_xml_filepath dd ''a.xml''], None)"
    using d by (simp add: create_xml_ntuple_dir_table_def Let_def b qb_def)
  have t: "create_tables env listing repo_name git_branch top_dir appnd =
       ((qa, [\<lparr>filepath = ''a.xml'', year = '''', branch = '''',
               git_src = repo_name @ ''/'' @ git_branch\<rparr>], None),
        Some (qb, [add_xml_filepath dd ''a.xml''], None))"
    by (simp add: create_tables_def Let_def ta tb)
  have "ntuple_dir (add_xml_filepath dd ''a.xml'') = ''RunII_102X_v1/2017v2/store/user/alice/job''"
    "user (add_xml_filepath dd ''a.xml'') = Some ''alice''"
    "xml_filepath (add_xml_filepath dd ''a.xml'') = ''a.xml''"
    using dd(2,3) by (simp_all add: add_xml_filepath_def)
  then have "\<exists>qa qb row.
     create_tables env listing repo_name git_branch top_dir appnd =
       ((qa, [\<lparr>filepath = ''a.xml'', year = '''', branch = '''',
               git_src = repo_name @ ''/'' @ git_branch\<rparr>], None),
        Some (qb, [row], None))
     \<and> ntuple_dir row = ''RunII_102X_v1/2017v2/store/user/alice/job''
     \<and> endswith (ntuple_dir row) ''/job''
     \<and> user row = Some ''alice''
     \<and> xml_filepath row = ''a.xml''"
    using t e by (metis (no_types))
  then show ?thesis
    using nested_xml_data by blast
qed

theorem scan_scenario_witness:
  "set_listing remdups
   \<and> isdir example_env ''datasets''
   \<and> startswith (getcwd example_env) ''/''
   \<and> walk example_env ''datasets'' = [(''datasets'', [''a.xml'', ''README''])]
   \<and> filter (\<lambda>filename. splitext_ext filename = ''.xml'') [''a.xml'', ''README''] = [''a.xml'']
   \<and> get_ntuple_filenames_from_xml example_env (path_join ''datasets'' ''a.xml'') =
      [''RunII_102X_v1/2017v2/store/user/alice/job/0000/f1.root'',
       ''RunII_102X_v1/2017v2/store/user/alice/job/0001/f2.root'']
   \<and> \<not> isdir example_env ''RunII_102X_v1/2017v2/store/user/alice/job''
   \<and> (\<exists>qa qb row.
     create_tables example_env remdups ''UHH2-datasets'' ''master'' ''datasets'' False =
       ((qa, [\<lparr>filepath = ''a.xml'', year = '''', branch = '''',
               git_src = ''UHH2-datasets'' @ ''/'' @ ''master''\<rparr>], None),
        Some (qb, [row], None))
     \<and> ntuple_dir row = ''RunII_102X_v1/2017v2/store/user/alice/job''
     \<and> endswith (ntuple_dir row) ''/job''
     \<and> user row = Some ''alice''
     \<and> xml_filepath row = ''a.xml'')"
proof -
  have l: "set_listing remdups"
    by (rule set_listing_remdups)
  have d: "isdir example_env ''datasets''"
    by (simp add: example_env_def)
  have c: "startswith (getcwd example_env) ''/''"
    by code_simp
  have w: "walk example_env ''datasets'' = [(''datasets'', [''a.xml'', ''README''])]"
    by (simp add: example_env_def)
  have x: "filter (\<lambda>filename. splitext_ext filename = ''.xml'') [''a.xml'', ''README''] = [''a.xml'']"
    by code_simp
  have r: "get_ntuple_filenames_from_xml example_env (path_join ''datasets'' ''a.xml'') =
      [''RunII_102X_v1/2017v2/store/user/alice/job/0000/f1.root'',
       ''RunII_102X_v1/2017v2/store/user/alice/job/0001/f2.root'']"
    by code_simp
  have n: "\<not> isdir example_env ''RunII_102X_v1/2017v2/store/user/alice/job''"
    by (simp add: example_env_def)
  then have s: "isdir example_env ''RunII_102X_v1/2017v2/store/user/alice/job''
      \<longrightarrow> lstat example_env ''RunII_102X_v1/2017v2/store/user/alice/job'' \<noteq> None"
    by simp
  from scan_scenario [OF l d c w x r s, of "''UHH2-datasets''" "''master''" False]
    l d c w x r n
  show ?thesis by blast
qed

end
